theory Spec2Isabelle
  imports Main "HOL-Library.AList"
begin

section \<open>Values crossing the worker boundary\<close>

text \<open>
  The converter workers operate on what \<^verbatim>\<open>JSON.parse\<close> and the sheet and CSV readers
  return, so a value is a JSON value. An object is the list of its own enumerable
  properties in enumeration order, which is what \<^verbatim>\<open>for (k in o)\<close> filtered by
  \<^verbatim>\<open>hasOwnProperty\<close> and \<^verbatim>\<open>Object.entries(o)\<close> visit; a well-formed object has distinct
  keys. Numbers are integers (the printing of fractions is not modelled) and a
  \<^typ>\<open>char\<close> stands for one code unit of a string.
\<close>

datatype jsval =
    JNull
  | JBool bool
  | JNum int
  | JStr string
  | JArr "jsval list"
  | JObj "(string \<times> jsval) list"

text \<open>\<^verbatim>\<open>typeof v === 'object'\<close>: true of objects, arrays and \<^verbatim>\<open>null\<close>.\<close>

fun typeof_object :: "jsval \<Rightarrow> bool" where
  "typeof_object JNull = True"
| "typeof_object (JArr xs) = True"
| "typeof_object (JObj kvs) = True"
| "typeof_object _ = False"

text \<open>\<^verbatim>\<open>!v\<close>: the values that coerce to false.\<close>

fun falsy :: "jsval \<Rightarrow> bool" where
  "falsy JNull = True"
| "falsy (JBool b) = (\<not> b)"
| "falsy (JNum n) = (n = 0)"
| "falsy (JStr s) = (s = [])"
| "falsy _ = False"

fun isArray :: "jsval \<Rightarrow> bool" where
  "isArray (JArr xs) = True"
| "isArray _ = False"

definition digit_char :: "nat \<Rightarrow> char" where
  "digit_char d = ''0123456789abcdef'' ! d"

fun show_nat :: "nat \<Rightarrow> string" where
  "show_nat n = (if n < 10 then [digit_char n] else show_nat (n div 10) @ [digit_char (n mod 10)])"

definition show_int :: "int \<Rightarrow> string" where
  "show_int i = (if i < 0 then ''-'' @ show_nat (nat (- i)) else show_nat (nat i))"

text \<open>
  The own enumerable properties of a value of type object: the fields of an object, the
  indices of an array (as decimal strings).
\<close>

fun entries :: "jsval \<Rightarrow> (string \<times> jsval) list" where
  "entries (JObj kvs) = kvs"
| "entries (JArr xs) = zip (map show_nat [0..<length xs]) xs"
| "entries _ = []"

subsection \<open>JSON.stringify\<close>

text \<open>
  The serialisation of a JSON value without indentation: strings are quoted, with the
  quotation mark, the backslash and the control characters escaped.
\<close>

definition escape_char :: "char \<Rightarrow> string" where
  "escape_char c =
     (if c = CHR 0x22 then [CHR 0x5C, CHR 0x22]
      else if c = CHR 0x5C then [CHR 0x5C, CHR 0x5C]
      else if c = CHR 0x08 then [CHR 0x5C, CHR ''b'']
      else if c = CHR 0x09 then [CHR 0x5C, CHR ''t'']
      else if c = CHR 0x0A then [CHR 0x5C, CHR ''n'']
      else if c = CHR 0x0C then [CHR 0x5C, CHR ''f'']
      else if c = CHR 0x0D then [CHR 0x5C, CHR ''r'']
      else if of_char c < (32::nat)
        then [CHR 0x5C, CHR ''u'', CHR ''0'', CHR ''0'',
              digit_char (of_char c div 16), digit_char (of_char c mod 16)]
      else [c])"

definition quote :: "string \<Rightarrow> string" where
  "quote s = [CHR 0x22] @ concat (map escape_char s) @ [CHR 0x22]"

fun join :: "string \<Rightarrow> string list \<Rightarrow> string" where
  "join sep [] = []"
| "join sep [x] = x"
| "join sep (x # y # ys) = x @ sep @ join sep (y # ys)"

fun JSON_stringify :: "jsval \<Rightarrow> string" where
  "JSON_stringify JNull = ''null''"
| "JSON_stringify (JBool b) = (if b then ''true'' else ''false'')"
| "JSON_stringify (JNum n) = show_int n"
| "JSON_stringify (JStr s) = quote s"
| "JSON_stringify (JArr xs) = ''['' @ join '','' (map JSON_stringify xs) @ '']''"
| "JSON_stringify (JObj kvs) =
     ''{'' @ join '','' (map (\<lambda>kv. quote (fst kv) @ '':'' @ JSON_stringify (snd kv)) kvs) @ ''}''"

subsection \<open>Assignment to a property of a fresh object\<close>

text \<open>
  Both normalizers build their result by \<^verbatim>\<open>result[key] = value\<close> on an object created as
  \<^verbatim>\<open>{}\<close>. Such an assignment updates the own property \<^verbatim>\<open>key\<close> in place or appends it,
  for every key but one: \<^verbatim>\<open>__proto__\<close> is an accessor inherited from
  \<^verbatim>\<open>Object.prototype\<close>, so the assignment runs its setter and creates no own property.
  The setter ignores a value that is neither an object nor \<^verbatim>\<open>null\<close>; given \<^verbatim>\<open>null\<close> it
  removes the prototype, after which the accessor is no longer inherited and
  \<^verbatim>\<open>__proto__\<close> is a key like any other. An object under construction is therefore its
  field list together with the flag "still inherits the accessor" (the normalizers never
  assign a value of type object other than \<^verbatim>\<open>null\<close>).
  (\<^verbatim>\<open>JSON.parse\<close> itself defines \<^verbatim>\<open>__proto__\<close> as an own property, so such a key does
  reach the normalizers.) The fields of a result are listed in the order of their first
  assignment; the runtime lists keys that are array indices first, and no statement below
  depends on that order.
\<close>

type_synonym obj = "(string \<times> jsval) list \<times> bool"

definition new_object :: obj where
  "new_object = ([], True)"

definition assign :: "string \<Rightarrow> jsval \<Rightarrow> obj \<Rightarrow> obj" where
  "assign k v ob =
     (if k = ''__proto__'' \<and> snd ob then (fst ob, v \<noteq> JNull)
      else (AList.update k v (fst ob), snd ob))"

section \<open>Limit policy\<close>

definition FIRST_PREVIEW_CHUNK :: nat where "FIRST_PREVIEW_CHUNK = 100"
definition PREVIEW_CHUNK_SIZE :: nat where "PREVIEW_CHUNK_SIZE = 200"
definition PREVIEW_LIMIT :: nat where "PREVIEW_LIMIT = 1000"
definition MAX_ROWS :: nat where "MAX_ROWS = 100000"
definition MAX_COLUMNS :: nat where "MAX_COLUMNS = 500"
definition MAX_CELL_CHARS :: nat where "MAX_CELL_CHARS = 200000"

section \<open>Tabular normalizer\<close>

subsection \<open>enforceTabularLimits\<close>

text \<open>
  The three \<^verbatim>\<open>throw new Error(...)\<close> of the guard; the argument is the \<^verbatim>\<open>context\<close> that
  starts the message.
\<close>

datatype worker_error = RowsExceeded string | ColumnsExceeded string | CellTooLarge string

text \<open>\<^verbatim>\<open>columnSet.add(key)\<close> on a \<^verbatim>\<open>Set\<close>, kept in insertion order; its size is the length.\<close>

definition set_add :: "string \<Rightarrow> string list \<Rightarrow> string list" where
  "set_add k columnSet = (if k \<in> set columnSet then columnSet else columnSet @ [k])"

text \<open>\<^verbatim>\<open>typeof value === 'string' && value.length > MAX_CELL_CHARS\<close>\<close>

fun too_long :: "jsval \<Rightarrow> bool" where
  "too_long (JStr s) = (length s > MAX_CELL_CHARS)"
| "too_long _ = False"

text \<open>The inner loop over \<^verbatim>\<open>Object.entries(row)\<close>.\<close>

fun scan_entries ::
  "string \<Rightarrow> string list \<Rightarrow> (string \<times> jsval) list \<Rightarrow> worker_error + string list" where
  "scan_entries context columnSet [] = Inr columnSet"
| "scan_entries context columnSet ((key, value) # rest) =
     (let columnSet' = set_add key columnSet
      in if length columnSet' > MAX_COLUMNS then Inl (ColumnsExceeded context)
         else if too_long value then Inl (CellTooLarge context)
         else scan_entries context columnSet' rest)"

text \<open>The outer loop over the rows; a row that is falsy or not of type object is skipped.\<close>

fun scan_rows :: "string \<Rightarrow> string list \<Rightarrow> jsval list \<Rightarrow> worker_error + string list" where
  "scan_rows context columnSet [] = Inr columnSet"
| "scan_rows context columnSet (row # rows) =
     (if falsy row \<or> \<not> typeof_object row then scan_rows context columnSet rows
      else case scan_entries context columnSet (entries row) of
             Inl e \<Rightarrow> Inl e
           | Inr columnSet' \<Rightarrow> scan_rows context columnSet' rows)"

definition enforceTabularLimits :: "jsval list \<Rightarrow> string \<Rightarrow> worker_error + unit" where
  "enforceTabularLimits rows context =
     (if length rows > MAX_ROWS then Inl (RowsExceeded context)
      else case scan_rows context [] rows of Inl e \<Rightarrow> Inl e | Inr columnSet \<Rightarrow> Inr ())"

subsection \<open>flattenObject\<close>

text \<open>
  The stack holds pairs \<^verbatim>\<open>{current, prefix}\<close> with the top at the head. \<open>flatten_props\<close> is
  the \<^verbatim>\<open>for (const k in current)\<close> loop: it pushes nested objects and assigns everything
  else; \<open>flatten_loop\<close> is the \<^verbatim>\<open>while (stack.length > 0)\<close> loop around it.
\<close>

type_synonym stack = "(jsval \<times> string) list"

fun flatten_props :: "string \<Rightarrow> (string \<times> jsval) list \<Rightarrow> stack \<Rightarrow> obj \<Rightarrow> stack \<times> obj" where
  "flatten_props prefix [] stack result = (stack, result)"
| "flatten_props prefix ((k, value) # rest) stack result =
     (let newKey = (if prefix \<noteq> [] then prefix @ ''.'' @ k else k)
      in if value \<noteq> JNull \<and> typeof_object value \<and> \<not> isArray value
           then flatten_props prefix rest ((value, newKey) # stack) result
         else if isArray value
           then flatten_props prefix rest stack (assign newKey (JStr (JSON_stringify value)) result)
         else flatten_props prefix rest stack (assign newKey value result))"

text \<open>The loop terminates because the values on the stack get smaller.\<close>

fun weight :: "jsval \<Rightarrow> nat" where
  "weight (JArr xs) = Suc (sum_list (map weight xs))"
| "weight (JObj kvs) = Suc (sum_list (map (\<lambda>kv. weight (snd kv)) kvs))"
| "weight _ = Suc 0"

definition stack_weight :: "stack \<Rightarrow> nat" where
  "stack_weight st = sum_list (map (\<lambda>e. weight (fst e)) st)"

lemma flatten_props_weight:
  "stack_weight (fst (flatten_props prefix es st r))
     \<le> stack_weight st + sum_list (map (\<lambda>kv. weight (snd kv)) es)"
  by (induction prefix es st r rule: flatten_props.induct)
     (auto simp: stack_weight_def Let_def)

lemma entries_weight:
  "sum_list (map (\<lambda>kv. weight (snd kv)) (entries v)) < weight v"
proof (cases v)
  case (JArr xs)
  have "map snd (zip (map show_nat [0..<length xs]) xs) = xs"
    by (simp add: map_snd_zip)
  then have "map (\<lambda>kv. weight (snd kv)) (zip (map show_nat [0..<length xs]) xs) = map weight xs"
    by (metis (no_types, lifting) map_map comp_def map_eq_conv)
  with JArr show ?thesis by simp
qed simp_all

function flatten_loop :: "stack \<Rightarrow> obj \<Rightarrow> obj" where
  "flatten_loop [] result = result"
| "flatten_loop ((current, prefix) # stack) result =
     (case flatten_props prefix (entries current) stack result of
        (stack', result') \<Rightarrow> flatten_loop stack' result')"
  by pat_completeness auto
termination
proof (relation "measure (\<lambda>(st, r). stack_weight st)")
  show "wf (measure (\<lambda>(st, r). stack_weight st))" by simp
next
  fix current :: jsval and prefix :: string and stack :: stack and result :: obj and stack' result'
  assume "(stack', result') = flatten_props prefix (entries current) stack result"
  then have "stack' = fst (flatten_props prefix (entries current) stack result)"
    by (metis fst_conv)
  then have "stack_weight stack' < stack_weight stack + weight current"
    using flatten_props_weight [of prefix "entries current" stack result] entries_weight [of current]
    by simp
  then show "((stack', result'), (current, prefix) # stack, result) \<in> measure (\<lambda>(st, r). stack_weight st)"
    by (simp add: stack_weight_def)
qed

definition flattenObject :: "jsval \<Rightarrow> jsval" where
  "flattenObject obj =
     (if obj = JNull \<or> \<not> typeof_object obj then obj
      else JObj (fst (flatten_loop [(obj, [])] new_object)))"

subsection \<open>sanitizeForTabular\<close>

definition sanitize_value :: "jsval \<Rightarrow> jsval" where
  "sanitize_value value =
     (if value \<noteq> JNull \<and> typeof_object value then JStr (JSON_stringify value) else value)"

definition sanitize_item :: "jsval \<Rightarrow> jsval" where
  "sanitize_item item =
     (if \<not> typeof_object item \<or> item = JNull then JObj [(''value'', item)]
      else JObj (fst (fold (\<lambda>(key, value). assign key (sanitize_value value))
                           (entries item) new_object)))"

definition sanitizeForTabular :: "jsval list \<Rightarrow> jsval list" where
  "sanitizeForTabular data = map sanitize_item data"

section \<open>Worker responses\<close>

text \<open>
  \<^verbatim>\<open>WorkerResponse\<close> as the converter workers post it, one constructor per value of its
  \<^verbatim>\<open>type\<close> field; the last argument is the \<^verbatim>\<open>id\<close>. \<^verbatim>\<open>PREVIEW_CHUNK\<close> carries a
  \<^verbatim>\<open>PreviewChunkPayload\<close> (chunk, chunkIndex, totalRows, done), \<^verbatim>\<open>PREVIEW_COMPLETE\<close> carries
  totalRows and previewRows, and \<^verbatim>\<open>CONVERSION_ERROR\<close> the error caught by the handler.
\<close>

datatype response =
    PREVIEW_CHUNK "jsval list" nat nat bool "string option"
  | PREVIEW_COMPLETE nat nat "string option"
  | PARSE_SUCCESS "jsval list" nat "string option"
  | CONVERSION_SUCCESS "jsval list" "string option"
  | CONVERSION_ERROR worker_error "string option"

section \<open>Chunk emitter\<close>

text \<open>\<^verbatim>\<open>xs.slice(a, b)\<close> for \<open>0 \<le> a\<close> and \<open>0 \<le> b\<close>: both ends are clamped to the length.\<close>

definition slice :: "nat \<Rightarrow> nat \<Rightarrow> 'a list \<Rightarrow> 'a list" where
  "slice a b xs = take (b - a) (drop a xs)"

text \<open>
  The \<^verbatim>\<open>while (index < cappedRows.length)\<close> loop of \<^verbatim>\<open>emitPreviewChunks\<close>; the result is
  the list of responses posted, in order. The \<^verbatim>\<open>await nextTick()\<close> after each batch yields
  to the scheduler and posts nothing.
\<close>

function emit_loop ::
  "jsval list \<Rightarrow> nat \<Rightarrow> string option \<Rightarrow> nat \<Rightarrow> nat \<Rightarrow> response list" where
  "emit_loop cappedRows totalRows ident index chunkIndex =
     (if index < length cappedRows then
        (let size = (if chunkIndex = 0 then FIRST_PREVIEW_CHUNK else PREVIEW_CHUNK_SIZE);
             chunk = slice index (index + size) cappedRows
         in PREVIEW_CHUNK chunk chunkIndex totalRows (index + size \<ge> length cappedRows) ident
            # emit_loop cappedRows totalRows ident (index + size) (chunkIndex + 1))
      else [])"
  by pat_completeness auto
termination
  by (relation "measure (\<lambda>(cappedRows, totalRows, ident, index, chunkIndex). length cappedRows - index)")
     (auto simp: FIRST_PREVIEW_CHUNK_def PREVIEW_CHUNK_SIZE_def)

declare emit_loop.simps [simp del]

definition emitPreviewChunks :: "jsval list \<Rightarrow> string option \<Rightarrow> response list" where
  "emitPreviewChunks rows ident =
     (let cappedRows = slice 0 PREVIEW_LIMIT rows;
          totalRows = length rows
      in emit_loop cappedRows totalRows ident 0 0
         @ (if length cappedRows = 0 then [PREVIEW_CHUNK [] 0 totalRows True ident] else [])
         @ [PREVIEW_COMPLETE totalRows (length cappedRows) ident])"

subsection \<open>Reading a response stream\<close>

fun is_chunk :: "response \<Rightarrow> bool" where
  "is_chunk (PREVIEW_CHUNK c i t d ident) = True"
| "is_chunk _ = False"

fun chunk_rows :: "response \<Rightarrow> jsval list" where
  "chunk_rows (PREVIEW_CHUNK c i t d ident) = c"
| "chunk_rows _ = []"

fun chunk_index :: "response \<Rightarrow> nat option" where
  "chunk_index (PREVIEW_CHUNK c i t d ident) = Some i"
| "chunk_index _ = None"

text \<open>The progress batches of a stream, and the number of rows a list of batches carries.\<close>

definition batches :: "response list \<Rightarrow> response list" where
  "batches rs = filter is_chunk rs"

definition emitted :: "response list \<Rightarrow> nat" where
  "emitted rs = sum_list (map (\<lambda>r. length (chunk_rows r)) rs)"

section \<open>Message handlers of the converter workers\<close>

text \<open>
  The \<^verbatim>\<open>for (let i = 0; i < rowLimit; i++) data[i] = overwriteRows[i]\<close> loop. The index
  stays below both lengths, so the update and the read are in range.
\<close>

function overwrite_loop :: "jsval list \<Rightarrow> nat \<Rightarrow> nat \<Rightarrow> jsval list \<Rightarrow> jsval list" where
  "overwrite_loop overwriteRows rowLimit i data =
     (if i < rowLimit then overwrite_loop overwriteRows rowLimit (i + 1) (data[i := overwriteRows ! i])
      else data)"
  by pat_completeness auto
termination
  by (relation "measure (\<lambda>(overwriteRows, rowLimit, i, data). rowLimit - i)") auto

declare overwrite_loop.simps [simp del]

text \<open>
  \<^verbatim>\<open>options?.overwriteRows && Array.isArray(options.overwriteRows)\<close>: the option is
  \<open>None\<close> when it is absent or not an array.
\<close>

definition apply_overwriteRows :: "jsval list option \<Rightarrow> jsval list \<Rightarrow> jsval list" where
  "apply_overwriteRows overwriteRows data =
     (case overwriteRows of
        None \<Rightarrow> data
      | Some ow \<Rightarrow> overwrite_loop ow (min (length ow) (length data)) 0 data)"

text \<open>
  The \<^verbatim>\<open>excel-to-json\<close> branch of \<^verbatim>\<open>CONVERT_EXCEL\<close> and the \<^verbatim>\<open>csv-to-json\<close> branch of
  \<^verbatim>\<open>CONVERT_CSV\<close>, from the rows that the sheet or CSV reader returned (the readers are
  libraries); \<open>context\<close> is \<^verbatim>\<open>'Excel parse'\<close> or \<^verbatim>\<open>'CSV parse'\<close>. An error thrown in the
  \<^verbatim>\<open>try\<close> block is posted as \<^verbatim>\<open>CONVERSION_ERROR\<close> by the \<^verbatim>\<open>catch\<close> block.
\<close>

definition convert_to_json ::
  "string \<Rightarrow> jsval list \<Rightarrow> jsval list option \<Rightarrow> string option \<Rightarrow> response list" where
  "convert_to_json context jsonData overwriteRows ident =
     (case enforceTabularLimits jsonData context of
        Inl e \<Rightarrow> [CONVERSION_ERROR e ident]
      | Inr u \<Rightarrow> [CONVERSION_SUCCESS (apply_overwriteRows overwriteRows jsonData) ident])"

text \<open>
  \<^verbatim>\<open>PARSE_FOR_PREVIEW\<close> and \<^verbatim>\<open>PARSE_FOR_PREVIEW_STREAM\<close> (\<open>stream\<close>), from the parsed JSON
  input: a value that is not an array becomes a one-row list.
\<close>

definition processedData :: "jsval \<Rightarrow> bool \<Rightarrow> jsval list" where
  "processedData jsonData flatten =
     (let rows = (case jsonData of JArr xs \<Rightarrow> xs | _ \<Rightarrow> [jsonData])
      in if flatten then map flattenObject rows else rows)"

definition parse_for_preview :: "bool \<Rightarrow> jsval \<Rightarrow> bool \<Rightarrow> string option \<Rightarrow> response list" where
  "parse_for_preview stream jsonData flatten ident =
     (case enforceTabularLimits (processedData jsonData flatten) ''Preview parse'' of
        Inl e \<Rightarrow> [CONVERSION_ERROR e ident]
      | Inr u \<Rightarrow>
          if stream then emitPreviewChunks (processedData jsonData flatten) ident
          else [PARSE_SUCCESS (slice 0 PREVIEW_LIMIT (processedData jsonData flatten))
                  (length (processedData jsonData flatten)) ident])"

text \<open>\<^verbatim>\<open>PREVIEW_EXCEL_STREAM\<close>, from the rows of the first sheet.\<close>

definition preview_excel_stream :: "jsval list \<Rightarrow> bool \<Rightarrow> string option \<Rightarrow> response list" where
  "preview_excel_stream sheetRows flatten ident =
     (let rows = (if flatten then map flattenObject sheetRows else sheetRows)
      in case enforceTabularLimits rows ''Excel preview parse'' of
           Inl e \<Rightarrow> [CONVERSION_ERROR e ident]
         | Inr u \<Rightarrow> emitPreviewChunks rows ident)"

text \<open>
  The cells that the limit guard visits, in the order in which it scans: the entries of
  every row that is not skipped.
\<close>

definition scanned_cells :: "jsval list \<Rightarrow> (string \<times> jsval) list" where
  "scanned_cells rows =
     concat (map entries (filter (\<lambda>row. \<not> (falsy row \<or> \<not> typeof_object row)) rows))"

section \<open>Task orchestrator (WorkerManager)\<close>

text \<open>
  The fields of the class are \<open>worker\<close>, \<open>messageHandlers\<close>, \<open>errorHandlers\<close>,
  \<open>progressHandlers\<close>, \<open>messageId\<close> and \<open>debounceTimers\<close>; a \<^verbatim>\<open>Map\<close> is an association
  list in insertion order. The handler maps store \<^verbatim>\<open>resolve\<close> and \<^verbatim>\<open>reject\<close> of the
  promise that \<^verbatim>\<open>executePostMessage\<close> creates, so they map a message id to that promise.
  The remaining fields are the part of the runtime the class acts on:
  \<^item> \<open>timers\<close>: the timeouts set by \<^verbatim>\<open>window.setTimeout\<close> that have neither fired nor been
    cleared, each with the arguments its callback closes over;
  \<^item> \<open>promises\<close>: the promises settled so far, with their outcome;
  \<^item> \<open>chains\<close>: for a debounced request, \<^verbatim>\<open>.then(resolve).catch(reject).finally(...)\<close>
    attached to the promise of \<^verbatim>\<open>executePostMessage\<close>: the promise returned to the
    caller and the message type whose \<open>debounceTimers\<close> entry \<^verbatim>\<open>finally\<close> deletes;
  \<^item> \<open>jobs\<close>: reactions of settled promises that are queued and have not run yet;
  \<^item> \<open>sent\<close>: the messages posted to workers, \<open>progressed\<close>: the calls of progress
    callbacks, \<open>terminated\<close>: the workers terminated;
  \<^item> counters for the handles of new workers, timers and promises.
\<close>

record 'p message =
  mtype :: string
  mpayload :: 'p
  mid :: string

text \<open>\<^verbatim>\<open>WorkerResponse\<close> as the orchestrator receives it.\<close>

record 'r worker_response =
  rtype :: string
  rpayload :: 'r
  rid :: "string option"
  rerror :: "string option"

datatype 'r outcome = Fulfilled 'r | Rejected string

record 'p call =
  ctype :: string
  cpayload :: 'p
  ctransfer :: "nat list option"
  conProgress :: "nat option"
  cpromise :: nat

record ('p, 'r) world =
  worker :: "nat option"
  messageHandlers :: "(string \<times> nat) list"
  errorHandlers :: "(string \<times> nat) list"
  progressHandlers :: "(string \<times> nat) list"
  messageId :: nat
  debounceTimers :: "(string \<times> nat) list"
  timers :: "(nat \<times> 'p call) list"
  promises :: "(nat \<times> 'r outcome) list"
  chains :: "(nat \<times> nat \<times> string) list"
  jobs :: "(nat \<times> 'r outcome \<times> string) list"
  sent :: "(nat \<times> 'p message \<times> nat list option) list"
  progressed :: "(nat \<times> 'r) list"
  terminated :: "nat list"
  nextWorker :: nat
  nextTimer :: nat
  nextPromise :: nat

definition new_manager :: "('p, 'r) world" where
  "new_manager = \<lparr> worker = None, messageHandlers = [], errorHandlers = [], progressHandlers = [],
     messageId = 0, debounceTimers = [], timers = [], promises = [], chains = [], jobs = [],
     sent = [], progressed = [], terminated = [], nextWorker = 0, nextTimer = 0, nextPromise = 0 \<rparr>"

text \<open>
  Calling \<^verbatim>\<open>resolve\<close> or \<^verbatim>\<open>reject\<close> of a promise: the first call settles it and queues the
  reactions chained to it, a later call does nothing.
\<close>

definition settle :: "nat \<Rightarrow> 'r outcome \<Rightarrow> ('p, 'r) world \<Rightarrow> ('p, 'r) world" where
  "settle p out w =
     (if p \<in> fst ` set (promises w) then w
      else w\<lparr> promises := promises w @ [(p, out)],
              jobs := jobs w @ map (\<lambda>c. (fst (snd c), out, snd (snd c)))
                                   (filter (\<lambda>c. fst c = p) (chains w)) \<rparr>)"

text \<open>
  A queued reaction of a debounced request: the outcome is passed on to the promise the
  caller holds, then \<^verbatim>\<open>this.debounceTimers.delete(type)\<close> runs. The runtime runs the queue
  when the current handler or caller has returned.
\<close>

definition run_job :: "nat \<times> 'r outcome \<times> string \<Rightarrow> ('p, 'r) world \<Rightarrow> ('p, 'r) world" where
  "run_job j w =
     (let w1 = settle (fst j) (fst (snd j)) w
      in w1\<lparr> debounceTimers := AList.delete (snd (snd j)) (debounceTimers w1) \<rparr>)"

definition run_jobs :: "('p, 'r) world \<Rightarrow> ('p, 'r) world" where
  "run_jobs w = fold run_job (jobs w) (w\<lparr> jobs := [] \<rparr>)"

definition init :: "('p, 'r) world \<Rightarrow> ('p, 'r) world" where
  "init w = (if worker w \<noteq> None then w
             else w\<lparr> worker := Some (nextWorker w), nextWorker := nextWorker w + 1 \<rparr>)"

definition executePostMessage ::
  "string \<Rightarrow> 'p \<Rightarrow> nat list option \<Rightarrow> nat option \<Rightarrow> ('p, 'r) world \<Rightarrow> nat \<times> ('p, 'r) world" where
  "executePostMessage type payload transfer onProgress w =
     (let promise = nextPromise w;
          ident = type @ ''-'' @ show_nat (messageId w);
          w1 = w\<lparr> nextPromise := nextPromise w + 1, messageId := messageId w + 1 \<rparr>;
          w2 = w1\<lparr> messageHandlers := AList.update ident promise (messageHandlers w1) \<rparr>;
          w3 = w2\<lparr> errorHandlers := AList.update ident promise (errorHandlers w2) \<rparr>;
          w4 = (case onProgress of
                  None \<Rightarrow> w3
                | Some cb \<Rightarrow> w3\<lparr> progressHandlers := AList.update ident cb (progressHandlers w3) \<rparr>);
          message = \<lparr> mtype = type, mpayload = payload, mid = ident \<rparr>
      in (promise,
          case worker w4 of
            None \<Rightarrow> w4
          | Some wk \<Rightarrow> w4\<lparr> sent := sent w4 @ [(wk, message, transfer)] \<rparr>))"

text \<open>\<^verbatim>\<open>clearTimeout\<close>: a timeout that has fired or been cleared already is not affected.\<close>

definition clearTimeout :: "nat \<Rightarrow> ('p, 'r) world \<Rightarrow> ('p, 'r) world" where
  "clearTimeout timerId w = w\<lparr> timers := AList.delete timerId (timers w) \<rparr>"

definition postMessage ::
  "string \<Rightarrow> 'p \<Rightarrow> nat list option \<Rightarrow> int \<Rightarrow> nat option \<Rightarrow> ('p, 'r) world
     \<Rightarrow> nat \<times> ('p, 'r) world" where
  "postMessage type payload transfer debounceMs onProgress w =
     (let w1 = init w
      in if debounceMs > 0 then
           (let promise = nextPromise w1;
                w2 = w1\<lparr> nextPromise := nextPromise w1 + 1 \<rparr>;
                w3 = (case map_of (debounceTimers w2) type of
                        None \<Rightarrow> w2
                      | Some t \<Rightarrow> clearTimeout t w2);
                timerId = nextTimer w3;
                w4 = w3\<lparr> nextTimer := nextTimer w3 + 1,
                         timers := timers w3 @ [(timerId,
                           \<lparr> ctype = type, cpayload = payload, ctransfer = transfer,
                             conProgress = onProgress, cpromise = promise \<rparr>)] \<rparr>
            in (promise, w4\<lparr> debounceTimers := AList.update type timerId (debounceTimers w4) \<rparr>))
         else executePostMessage type payload transfer onProgress w1)"

text \<open>
  The runtime fires a pending timeout: its callback calls \<^verbatim>\<open>executePostMessage\<close> and
  chains the caller's promise and the cleanup to the result.
\<close>

definition fire_timer :: "nat \<Rightarrow> ('p, 'r) world \<Rightarrow> ('p, 'r) world" where
  "fire_timer timerId w =
     (case map_of (timers w) timerId of
        None \<Rightarrow> w
      | Some c \<Rightarrow>
          (let w1 = w\<lparr> timers := AList.delete timerId (timers w) \<rparr>;
               (inner, w2) = executePostMessage (ctype c) (cpayload c) (ctransfer c) (conProgress c) w1
           in w2\<lparr> chains := chains w2 @ [(inner, cpromise c, ctype c)] \<rparr>))"

text \<open>The three \<^verbatim>\<open>delete(id)\<close> calls that end every terminal branch of \<^verbatim>\<open>worker.onmessage\<close>.\<close>

definition forget :: "string \<Rightarrow> ('p, 'r) world \<Rightarrow> ('p, 'r) world" where
  "forget ident w = w\<lparr> messageHandlers := AList.delete ident (messageHandlers w),
                        errorHandlers := AList.delete ident (errorHandlers w),
                        progressHandlers := AList.delete ident (progressHandlers w) \<rparr>"

text \<open>\<^verbatim>\<open>handlers.get(id)?.(value)\<close>\<close>

definition call_handler ::
  "(string \<times> nat) list \<Rightarrow> string \<Rightarrow> 'r outcome \<Rightarrow> ('p, 'r) world \<Rightarrow> ('p, 'r) world" where
  "call_handler handlers ident out w =
     (case map_of handlers ident of None \<Rightarrow> w | Some p \<Rightarrow> settle p out w)"

definition onmessage :: "'r worker_response \<Rightarrow> ('p, 'r) world \<Rightarrow> ('p, 'r) world" where
  "onmessage e w =
     (case rid e of
        None \<Rightarrow> w
      | Some ident \<Rightarrow>
          if ident = [] then w
          else if rtype e = ''PROGRESS'' \<or> rtype e = ''PREVIEW_CHUNK'' then
            (case map_of (progressHandlers w) ident of
               None \<Rightarrow> w
             | Some cb \<Rightarrow> w\<lparr> progressed := progressed w @ [(cb, rpayload e)] \<rparr>)
          else if rtype e = ''PREVIEW_COMPLETE'' then
            forget ident (call_handler (messageHandlers w) ident (Fulfilled (rpayload e)) w)
          else if rerror e \<noteq> None \<and> rerror e \<noteq> Some [] then
            forget ident (call_handler (errorHandlers w) ident (Rejected (the (rerror e))) w)
          else forget ident (call_handler (messageHandlers w) ident (Fulfilled (rpayload e)) w))"

definition cancelAll :: "string \<Rightarrow> ('p, 'r) world \<Rightarrow> ('p, 'r) world" where
  "cancelAll reason w =
     (let w1 = fold (\<lambda>entry. clearTimeout (snd entry)) (debounceTimers w) w;
          w2 = w1\<lparr> debounceTimers := [] \<rparr>;
          w3 = fold (\<lambda>entry. settle (snd entry) (Rejected reason)) (errorHandlers w2) w2;
          w4 = w3\<lparr> errorHandlers := [], messageHandlers := [], progressHandlers := [] \<rparr>;
          w5 = (case worker w4 of
                  None \<Rightarrow> w4
                | Some wk \<Rightarrow> w4\<lparr> terminated := terminated w4 @ [wk] \<rparr>)
      in w5\<lparr> worker := None \<rparr>)"

definition CANCELLED_MESSAGE :: string where
  "CANCELLED_MESSAGE = ''Operation cancelled''"

definition "terminate" :: "('p, 'r) world \<Rightarrow> ('p, 'r) world" where
  "terminate w = cancelAll CANCELLED_MESSAGE w"

subsection \<open>isCancelledError\<close>

text \<open>
  The argument is \<^verbatim>\<open>unknown\<close>: a string, an \<^verbatim>\<open>Error\<close> with its message, or anything else.
  The orchestrator rejects with strings only.
\<close>

datatype error_value = ErrString string | ErrError string | ErrOther

definition toLowerCase_char :: "char \<Rightarrow> char" where
  "toLowerCase_char c =
     (let n = (of_char c :: nat)
      in if (65 \<le> n \<and> n \<le> 90) \<or> (192 \<le> n \<and> n \<le> 222 \<and> n \<noteq> 215)
         then char_of (n + 32) else c)"

definition toLowerCase :: "string \<Rightarrow> string" where
  "toLowerCase s = map toLowerCase_char s"

text \<open>\<^verbatim>\<open>s.includes(sub)\<close>\<close>

fun str_includes :: "string \<Rightarrow> string \<Rightarrow> bool" where
  "str_includes [] sub = (sub = [])"
| "str_includes (c # cs) sub = (take (length sub) (c # cs) = sub \<or> str_includes cs sub)"

definition isCancelledError :: "error_value \<Rightarrow> bool" where
  "isCancelledError error =
     (case error of
        ErrString s \<Rightarrow> str_includes (toLowerCase s) ''cancel''
      | ErrError m \<Rightarrow> str_includes (toLowerCase m) ''cancel''
      | ErrOther \<Rightarrow> False)"

text \<open>The value a caller catches when the promise it awaits has been rejected.\<close>

fun caught :: "'r outcome option \<Rightarrow> error_value option" where
  "caught (Some (Rejected s)) = Some (ErrString s)"
| "caught _ = None"

section \<open>Notions used in the statements\<close>

text \<open>A scalar is a value that is neither an object nor an array; \<^verbatim>\<open>null\<close> is a scalar.\<close>

fun scalar :: "jsval \<Rightarrow> bool" where
  "scalar (JArr xs) = False"
| "scalar (JObj kvs) = False"
| "scalar _ = True"

text \<open>An object under construction with distinct keys and scalar fields only.\<close>

definition flat_fields :: "obj \<Rightarrow> bool" where
  "flat_fields ob \<longleftrightarrow> distinct (map fst (fst ob)) \<and> (\<forall>v \<in> snd ` set (fst ob). scalar v)"

section \<open>A run of the orchestrator\<close>

text \<open>
  The JSON viewer submits \<^verbatim>\<open>SEARCH_JSON\<close> with a debounce of 150 ms. In this run a first
  search \<open>x\<close> has been dispatched and is in flight, a second search \<open>a\<close> is submitted and
  waits for its timer, and then the worker answers the first search. (Any response type
  other than the three that \<^verbatim>\<open>onmessage\<close> names is handled the same way.) The cleanup
  chained to the first request then deletes the \<open>debounceTimers\<close> entry of the message
  type, which by now records the timer of \<open>a\<close>.
\<close>

definition search_dispatched :: "(jsval, jsval) world" where
  "search_dispatched =
     fire_timer 0 (snd (postMessage ''SEARCH_JSON'' (JStr ''x'') None 150 None new_manager))"

definition search_resubmitted :: "(jsval, jsval) world" where
  "search_resubmitted = snd (postMessage ''SEARCH_JSON'' (JStr ''a'') None 150 None search_dispatched)"

definition search_answered :: "(jsval, jsval) world" where
  "search_answered =
     run_jobs (onmessage \<lparr> rtype = ''SEARCH_SUCCESS'', rpayload = JArr [],
                            rid = Some ''SEARCH_JSON-0'', rerror = None \<rparr> search_resubmitted)"

text \<open>The payloads of the messages posted to workers, in order.\<close>

definition dispatched :: "('p, 'r) world \<Rightarrow> 'p list" where
  "dispatched w = map (\<lambda>s. mpayload (fst (snd s))) (sent w)"

text \<open>
  A burst: submissions of one message type made one after the other, while no timer
  fires, no response arrives and nothing is cancelled. A submission is the payload with
  the \<open>transfer\<close>, \<open>debounceMs\<close> and \<open>onProgress\<close> arguments.
\<close>

type_synonym 'p submission = "'p \<times> nat list option \<times> int \<times> nat option"

definition submit :: "string \<Rightarrow> 'p submission \<Rightarrow> ('p, 'r) world \<Rightarrow> ('p, 'r) world" where
  "submit type s w =
     snd (postMessage type (fst s) (fst (snd s)) (fst (snd (snd s))) (snd (snd (snd s))) w)"

definition submit_burst :: "string \<Rightarrow> 'p submission list \<Rightarrow> ('p, 'r) world \<Rightarrow> ('p, 'r) world" where
  "submit_burst type subs w = fold (submit type) subs w"

text \<open>The timeouts pending before a burst, without the one recorded for the message type.\<close>

definition other_timers :: "string \<Rightarrow> ('p, 'r) world \<Rightarrow> (nat \<times> 'p call) list" where
  "other_timers type w =
     (case map_of (debounceTimers w) type of
        None \<Rightarrow> timers w
      | Some t \<Rightarrow> AList.delete t (timers w))"

section \<open>Properties of the chunk emitter\<close>

lemma emit_loop_done [simp]:
  "length cappedRows \<le> index \<Longrightarrow> emit_loop cappedRows totalRows ident index chunkIndex = []"
  by (simp add: emit_loop.simps)

lemma emit_loop_step:
  "index < length cappedRows \<Longrightarrow>
   emit_loop cappedRows totalRows ident index chunkIndex =
     PREVIEW_CHUNK
       (slice index (index + (if chunkIndex = 0 then FIRST_PREVIEW_CHUNK else PREVIEW_CHUNK_SIZE)) cappedRows)
       chunkIndex totalRows
       (length cappedRows \<le> index + (if chunkIndex = 0 then FIRST_PREVIEW_CHUNK else PREVIEW_CHUNK_SIZE))
       ident
     # emit_loop cappedRows totalRows ident
         (index + (if chunkIndex = 0 then FIRST_PREVIEW_CHUNK else PREVIEW_CHUNK_SIZE)) (Suc chunkIndex)"
  by (subst emit_loop.simps) (simp add: Let_def)

lemma emit_loop_all_chunks:
  "r \<in> set (emit_loop cappedRows totalRows ident index chunkIndex) \<Longrightarrow> is_chunk r"
proof (induction cappedRows totalRows ident index chunkIndex rule: emit_loop.induct)
  case (1 cappedRows totalRows ident index chunkIndex)
  show ?case
  proof (cases "index < length cappedRows")
    case True
    with "1.prems" "1.IH" [OF True refl refl] show ?thesis
      by (auto simp: emit_loop_step)
  next
    case False
    with "1.prems" show ?thesis by simp
  qed
qed

lemma take_drop_step: "take n (drop i xs) @ drop (i + n) xs = drop i xs"
  by (metis add.commute append_take_drop_id drop_drop)

lemma emit_loop_concat:
  "concat (map chunk_rows (emit_loop cappedRows totalRows ident index chunkIndex))
     = drop index cappedRows"
proof (induction cappedRows totalRows ident index chunkIndex rule: emit_loop.induct)
  case (1 cappedRows totalRows ident index chunkIndex)
  show ?case
  proof (cases "index < length cappedRows")
    case True
    with "1.IH" [OF True refl refl] show ?thesis
      by (simp add: emit_loop_step slice_def take_drop_step)
  next
    case False
    then show ?thesis by simp
  qed
qed

lemma emitted_concat: "emitted rs = length (concat (map chunk_rows rs))"
  by (simp add: emitted_def length_concat comp_def)

lemma batches_emit_loop:
  "batches (emit_loop cappedRows totalRows ident index chunkIndex)
     = emit_loop cappedRows totalRows ident index chunkIndex"
  unfolding batches_def by (rule filter_True) (simp add: emit_loop_all_chunks)

lemma emit_loop_nonempty:
  "index < length cappedRows \<Longrightarrow> emit_loop cappedRows totalRows ident index chunkIndex \<noteq> []"
  by (simp add: emit_loop_step)

lemma batches_emitPreviewChunks:
  "batches (emitPreviewChunks rows ident) =
     (if rows = [] then [PREVIEW_CHUNK [] 0 0 True ident]
      else emit_loop (slice 0 PREVIEW_LIMIT rows) (length rows) ident 0 0)"
  by (simp add: emitPreviewChunks_def Let_def batches_def slice_def PREVIEW_LIMIT_def
      filter_True emit_loop_all_chunks)

text \<open>
  The batch at position \<open>i\<close> of the loop carries the index \<open>chunkIndex + i\<close>; when it is
  emitted some rows remain, and it takes the chunk size for its index or all that remain.
\<close>

lemma emit_loop_nth:
  "i < length (emit_loop cappedRows totalRows ident index chunkIndex) \<Longrightarrow>
   chunk_index (emit_loop cappedRows totalRows ident index chunkIndex ! i) = Some (chunkIndex + i)
   \<and> index + emitted (take i (emit_loop cappedRows totalRows ident index chunkIndex)) < length cappedRows
   \<and> length (chunk_rows (emit_loop cappedRows totalRows ident index chunkIndex ! i)) =
       min (length cappedRows
              - (index + emitted (take i (emit_loop cappedRows totalRows ident index chunkIndex))))
           (if chunkIndex + i = 0 then FIRST_PREVIEW_CHUNK else PREVIEW_CHUNK_SIZE)"
proof (induction cappedRows totalRows ident index chunkIndex arbitrary: i rule: emit_loop.induct)
  case (1 cappedRows totalRows ident index chunkIndex)
  show ?case
  proof (cases "index < length cappedRows")
    case False
    with "1.prems" show ?thesis by simp
  next
    case True
    define size where "size = (if chunkIndex = 0 then FIRST_PREVIEW_CHUNK else PREVIEW_CHUNK_SIZE)"
    define rest where "rest = emit_loop cappedRows totalRows ident (index + size) (Suc chunkIndex)"
    have step: "emit_loop cappedRows totalRows ident index chunkIndex =
        PREVIEW_CHUNK (slice index (index + size) cappedRows) chunkIndex totalRows
          (length cappedRows \<le> index + size) ident # rest"
      using True by (simp add: emit_loop_step size_def rest_def)
    show ?thesis
    proof (cases i)
      case 0
      with True show ?thesis
        by (simp add: step emitted_def slice_def size_def min.commute)
    next
      case (Suc j)
      with "1.prems" have j: "j < length rest" by (simp add: step)
      have ih: "chunk_index (rest ! j) = Some (Suc chunkIndex + j)
          \<and> index + size + emitted (take j rest) < length cappedRows
          \<and> length (chunk_rows (rest ! j)) =
              min (length cappedRows - (index + size + emitted (take j rest)))
                  (if Suc chunkIndex + j = 0 then FIRST_PREVIEW_CHUNK else PREVIEW_CHUNK_SIZE)"
        using "1.IH" [OF True refl refl, of j] j by (simp add: size_def rest_def)
      then have "index + size < length cappedRows" by linarith
      then have full: "length (slice index (index + size) cappedRows) = size"
        by (simp add: slice_def)
      have em: "emitted (take i (emit_loop cappedRows totalRows ident index chunkIndex))
          = size + emitted (take j rest)"
        using full by (simp add: step Suc emitted_def)
      from ih show ?thesis
        by (simp add: em) (simp add: step Suc add.assoc)
    qed
  qed
qed

lemma emitPreviewChunks_shape:
  "emitPreviewChunks rows ident =
     batches (emitPreviewChunks rows ident)
     @ [PREVIEW_COMPLETE (length rows) (length (slice 0 PREVIEW_LIMIT rows)) ident]"
  by (simp add: emitPreviewChunks_def Let_def batches_def filter_True emit_loop_all_chunks)

lemma concat_batches_emitPreviewChunks:
  "concat (map chunk_rows (batches (emitPreviewChunks rows ident))) = slice 0 PREVIEW_LIMIT rows"
  by (simp add: batches_emitPreviewChunks emit_loop_concat slice_def)

text \<open>
  C2. For every row sequence of length \<open>N > 1000\<close> the progress batches of the emitter
  carry exactly 1000 rows in total (the first 1000 rows, in order), and the stream ends
  with one stream-complete response that reports \<open>totalRows = N\<close> and 1000 preview rows.
\<close>

theorem C2_preview_cap_true_total:
  assumes "length rows > 1000"
  shows "emitted (batches (emitPreviewChunks rows ident)) = 1000
       \<and> concat (map chunk_rows (batches (emitPreviewChunks rows ident))) = take 1000 rows
       \<and> emitPreviewChunks rows ident =
           batches (emitPreviewChunks rows ident) @ [PREVIEW_COMPLETE (length rows) 1000 ident]"
proof -
  have cap: "slice 0 PREVIEW_LIMIT rows = take 1000 rows"
    by (simp add: slice_def PREVIEW_LIMIT_def)
  have len: "length (take 1000 rows) = 1000"
    using assms by simp
  have rows: "concat (map chunk_rows (batches (emitPreviewChunks rows ident))) = take 1000 rows"
    using concat_batches_emitPreviewChunks [of rows ident] cap by simp
  have total: "emitted (batches (emitPreviewChunks rows ident)) = 1000"
    by (simp only: emitted_concat rows len)
  have shape: "emitPreviewChunks rows ident =
      batches (emitPreviewChunks rows ident) @ [PREVIEW_COMPLETE (length rows) 1000 ident]"
    using emitPreviewChunks_shape [of rows ident] cap len by simp
  from total rows shape show ?thesis by blast
qed

theorem C2_preview_cap_true_total_witness:
  "length (replicate 1001 JNull) > 1000
   \<and> emitted (batches (emitPreviewChunks (replicate 1001 JNull) None)) = 1000
   \<and> last (emitPreviewChunks (replicate 1001 JNull) None) = PREVIEW_COMPLETE 1001 1000 None"
proof -
  have h: "length (replicate 1001 JNull) > 1000" by simp
  from C2_preview_cap_true_total [OF h, of None]
  have "emitted (batches (emitPreviewChunks (replicate 1001 JNull) None)) = 1000"
    and "emitPreviewChunks (replicate 1001 JNull) None =
           batches (emitPreviewChunks (replicate 1001 JNull) None)
           @ [PREVIEW_COMPLETE (length (replicate 1001 JNull)) 1000 None]"
    by blast+
  then have "emitted (batches (emitPreviewChunks (replicate 1001 JNull) None)) = 1000"
    and "last (emitPreviewChunks (replicate 1001 JNull) None) = PREVIEW_COMPLETE 1001 1000 None"
    by (simp, metis last_snoc length_replicate)
  with h show ?thesis by blast
qed

text \<open>
  C3. Let \<open>N \<ge> 1\<close> be the number of rows after the preview cap. The first batch carries
  \<open>min N 100\<close> rows; every later batch is emitted while rows remain and carries
  \<open>min remaining 200\<close> rows, where \<open>remaining\<close> is \<open>N\<close> minus the rows of the batches before
  it; the batch at position \<open>i\<close> has batch index \<open>i\<close>, so the indices start at 0 and grow
  by one per batch.
\<close>

theorem C3_chunk_sizing:
  assumes "N = length (slice 0 PREVIEW_LIMIT rows)"
    and "N \<ge> 1"
    and "bs = batches (emitPreviewChunks rows ident)"
  shows "bs \<noteq> []
       \<and> length (chunk_rows (bs ! 0)) = min N 100
       \<and> (\<forall>i. 0 < i \<and> i < length bs \<longrightarrow>
             emitted (take i bs) < N
             \<and> length (chunk_rows (bs ! i)) = min (N - emitted (take i bs)) 200)
       \<and> (\<forall>i < length bs. chunk_index (bs ! i) = Some i)"
proof -
  from assms(1,2) have ne: "rows \<noteq> []" by (auto simp: slice_def)
  with assms have bs: "bs = emit_loop (slice 0 PREVIEW_LIMIT rows) (length rows) ident 0 0"
    by (simp add: batches_emitPreviewChunks)
  from assms(1,2) have "0 < length (slice 0 PREVIEW_LIMIT rows)" by linarith
  then have nonempty: "bs \<noteq> []"
    unfolding bs by (rule emit_loop_nonempty)
  have nth: "chunk_index (bs ! i) = Some i \<and> emitted (take i bs) < N
      \<and> length (chunk_rows (bs ! i)) =
          min (N - emitted (take i bs)) (if i = 0 then FIRST_PREVIEW_CHUNK else PREVIEW_CHUNK_SIZE)"
    if "i < length bs" for i
    using emit_loop_nth [of i "slice 0 PREVIEW_LIMIT rows" "length rows" ident 0 0] that
    unfolding bs assms(1) by simp
  from nonempty have "0 < length bs" by simp
  from nth [OF this] have first: "length (chunk_rows (bs ! 0)) = min N 100"
    by (simp add: emitted_def FIRST_PREVIEW_CHUNK_def)
  have later: "\<forall>i. 0 < i \<and> i < length bs \<longrightarrow>
      emitted (take i bs) < N \<and> length (chunk_rows (bs ! i)) = min (N - emitted (take i bs)) 200"
    using nth by (auto simp: PREVIEW_CHUNK_SIZE_def)
  have idx: "\<forall>i < length bs. chunk_index (bs ! i) = Some i"
    using nth by blast
  from nonempty first later idx show ?thesis by blast
qed

lemma emit_350:
  "emit_loop (replicate 350 JNull) 350 None 0 0 =
     [PREVIEW_CHUNK (replicate 100 JNull) 0 350 False None,
      PREVIEW_CHUNK (replicate 200 JNull) 1 350 False None,
      PREVIEW_CHUNK (replicate 50 JNull) 2 350 True None]"
  by (simp add: emit_loop_step slice_def FIRST_PREVIEW_CHUNK_def PREVIEW_CHUNK_SIZE_def)

theorem C3_chunk_sizing_witness:
  "(350::nat) = length (slice 0 PREVIEW_LIMIT (replicate 350 JNull)) \<and> (350::nat) \<ge> 1
   \<and> length (batches (emitPreviewChunks (replicate 350 JNull) None)) = 3
   \<and> length (chunk_rows (batches (emitPreviewChunks (replicate 350 JNull) None) ! 0)) = 100
   \<and> length (chunk_rows (batches (emitPreviewChunks (replicate 350 JNull) None) ! 1)) = 200
   \<and> length (chunk_rows (batches (emitPreviewChunks (replicate 350 JNull) None) ! 2)) = 50
   \<and> chunk_index (batches (emitPreviewChunks (replicate 350 JNull) None) ! 2) = Some 2"
proof -
  define bs where "bs = batches (emitPreviewChunks (replicate 350 JNull) None)"
  have n: "(350::nat) = length (slice 0 PREVIEW_LIMIT (replicate 350 JNull))"
    by (simp add: slice_def PREVIEW_LIMIT_def)
  have len: "length bs = 3"
    by (simp add: bs_def batches_emitPreviewChunks slice_def PREVIEW_LIMIT_def emit_350)
  have e1: "emitted (take 1 bs) = 100" and e2: "emitted (take 2 bs) = 300"
    by (simp_all add: bs_def batches_emitPreviewChunks slice_def PREVIEW_LIMIT_def emit_350 emitted_def)
  have c3: "bs \<noteq> []
      \<and> length (chunk_rows (bs ! 0)) = min 350 100
      \<and> (\<forall>i. 0 < i \<and> i < length bs \<longrightarrow>
            emitted (take i bs) < 350
            \<and> length (chunk_rows (bs ! i)) = min (350 - emitted (take i bs)) 200)
      \<and> (\<forall>i < length bs. chunk_index (bs ! i) = Some i)"
    by (rule C3_chunk_sizing [OF n _ bs_def]) simp
  from c3 have b0: "length (chunk_rows (bs ! 0)) = 100" by simp
  from c3 have "0 < (1::nat) \<and> 1 < length bs \<longrightarrow>
      length (chunk_rows (bs ! 1)) = min (350 - emitted (take 1 bs)) 200" by blast
  with len e1 have b1: "length (chunk_rows (bs ! 1)) = 200" by simp
  from c3 have "0 < (2::nat) \<and> 2 < length bs \<longrightarrow>
      length (chunk_rows (bs ! 2)) = min (350 - emitted (take 2 bs)) 200" by blast
  with len e2 have b2: "length (chunk_rows (bs ! 2)) = 50" by simp
  from c3 have "2 < length bs \<longrightarrow> chunk_index (bs ! 2) = Some 2" by blast
  with len have i2: "chunk_index (bs ! 2) = Some 2" by simp
  from n len b0 b1 b2 i2 show ?thesis unfolding bs_def by simp
qed

text \<open>
  C9. If the capped row sequence is empty, the emitter posts exactly one progress batch,
  which is empty, has batch index 0 and is marked final, followed by exactly one
  stream-complete response with the total and emitted row counts. In every case the
  stream is a non-empty list of progress batches followed by the stream-complete
  response.
\<close>

theorem C9_empty_preview_stream:
  "(slice 0 PREVIEW_LIMIT rows = [] \<longrightarrow>
      emitPreviewChunks rows ident =
        [PREVIEW_CHUNK [] 0 (length rows) True ident, PREVIEW_COMPLETE (length rows) 0 ident])
   \<and> batches (emitPreviewChunks rows ident) \<noteq> []
   \<and> emitPreviewChunks rows ident =
       batches (emitPreviewChunks rows ident)
       @ [PREVIEW_COMPLETE (length rows) (length (slice 0 PREVIEW_LIMIT rows)) ident]"
proof -
  have empty: "emitPreviewChunks rows ident =
      [PREVIEW_CHUNK [] 0 (length rows) True ident, PREVIEW_COMPLETE (length rows) 0 ident]"
    if "slice 0 PREVIEW_LIMIT rows = []"
    using that by (simp add: emitPreviewChunks_def Let_def)
  have some: "batches (emitPreviewChunks rows ident) \<noteq> []"
  proof (cases "rows = []")
    case True
    then show ?thesis by (simp add: batches_emitPreviewChunks)
  next
    case False
    then have "0 < length (slice 0 PREVIEW_LIMIT rows)"
      by (simp add: slice_def PREVIEW_LIMIT_def)
    then show ?thesis
      using False by (simp add: batches_emitPreviewChunks emit_loop_nonempty)
  qed
  from empty some emitPreviewChunks_shape [of rows ident] show ?thesis by blast
qed

theorem C9_empty_preview_stream_witness:
  "slice 0 PREVIEW_LIMIT ([] :: jsval list) = []
   \<and> emitPreviewChunks [] (Some ''PARSE_FOR_PREVIEW_STREAM-0'') =
       [PREVIEW_CHUNK [] 0 0 True (Some ''PARSE_FOR_PREVIEW_STREAM-0''),
        PREVIEW_COMPLETE 0 0 (Some ''PARSE_FOR_PREVIEW_STREAM-0'')]"
  using C9_empty_preview_stream [of "[]" "Some ''PARSE_FOR_PREVIEW_STREAM-0''"]
  by (simp add: slice_def)

section \<open>Properties of the message handlers\<close>

lemma overwrite_loop_eq:
  "i \<le> rowLimit \<Longrightarrow> rowLimit \<le> length overwriteRows \<Longrightarrow> rowLimit \<le> length data \<Longrightarrow>
   overwrite_loop overwriteRows rowLimit i data =
     take i data @ take (rowLimit - i) (drop i overwriteRows) @ drop rowLimit data"
proof (induction overwriteRows rowLimit i data rule: overwrite_loop.induct)
  case (1 overwriteRows rowLimit i data)
  show ?case
  proof (cases "i < rowLimit")
    case False
    with "1.prems" have "i = rowLimit" by simp
    then show ?thesis by (subst overwrite_loop.simps) simp
  next
    case True
    let ?data' = "data[i := overwriteRows ! i]"
    have ih: "overwrite_loop overwriteRows rowLimit (i + 1) ?data' =
        take (i + 1) ?data' @ take (rowLimit - (i + 1)) (drop (i + 1) overwriteRows)
        @ drop rowLimit ?data'"
      using "1.IH" [OF True] True "1.prems" by simp
    have a: "take (i + 1) ?data' = take i data @ [overwriteRows ! i]"
      using True "1.prems" by (simp add: take_Suc_conv_app_nth)
    have b: "drop rowLimit ?data' = drop rowLimit data"
      using True by simp
    have c: "take (rowLimit - i) (drop i overwriteRows) =
        overwriteRows ! i # take (rowLimit - (i + 1)) (drop (i + 1) overwriteRows)"
    proof -
      from True "1.prems" have "i < length overwriteRows" by simp
      then have "drop i overwriteRows = overwriteRows ! i # drop (i + 1) overwriteRows"
        by (simp add: Cons_nth_drop_Suc)
      moreover from True have "rowLimit - i = Suc (rowLimit - (i + 1))" by simp
      ultimately show ?thesis by simp
    qed
    have "overwrite_loop overwriteRows rowLimit i data =
        overwrite_loop overwriteRows rowLimit (i + 1) ?data'"
      using True by (subst overwrite_loop.simps) simp
    then show ?thesis by (simp only: ih a b c append_assoc append_Cons append_Nil)
  qed
qed

lemma apply_overwriteRows_eq:
  "length ow \<le> length data \<Longrightarrow> apply_overwriteRows (Some ow) data = ow @ drop (length ow) data"
  using overwrite_loop_eq [of 0 "length ow" ow data]
  by (simp add: apply_overwriteRows_def min_def)

text \<open>
  C8. For the conversion to rows (\<^verbatim>\<open>excel-to-json\<close> and \<^verbatim>\<open>csv-to-json\<close>) of a parsed
  dataset of \<open>n\<close> rows that passes the limit guard, with \<open>overwriteRows\<close> of length
  \<open>k \<le> n\<close>: the response is a success whose data has \<open>n\<close> rows, rows \<open>0..k-1\<close> of it are
  the supplied rows and rows \<open>k..n-1\<close> are the source rows unchanged.
\<close>

theorem C8_overwriteRows:
  assumes "length ow \<le> length data"
    and "enforceTabularLimits data context = Inr ()"
    and "res = apply_overwriteRows (Some ow) data"
  shows "convert_to_json context data (Some ow) ident = [CONVERSION_SUCCESS res ident]
       \<and> length res = length data
       \<and> (\<forall>i < length ow. res ! i = ow ! i)
       \<and> (\<forall>i. length ow \<le> i \<and> i < length data \<longrightarrow> res ! i = data ! i)"
proof -
  have res: "res = ow @ drop (length ow) data"
    using assms(1,3) by (simp add: apply_overwriteRows_eq)
  have "convert_to_json context data (Some ow) ident = [CONVERSION_SUCCESS res ident]"
    using assms(2,3) by (simp add: convert_to_json_def)
  moreover have "length res = length data"
    using assms(1) by (simp add: res)
  moreover have "\<forall>i < length ow. res ! i = ow ! i"
    by (simp add: res nth_append)
  moreover have "\<forall>i. length ow \<le> i \<and> i < length data \<longrightarrow> res ! i = data ! i"
    using assms(1) by (auto simp: res nth_append)
  ultimately show ?thesis by blast
qed

theorem C8_overwriteRows_witness:
  "length [JObj [(''x'', JStr ''a'')], JObj [(''x'', JStr ''b'')], JObj [(''x'', JStr ''c'')]]
     \<le> length [JObj [(''x'', JNum 0)], JObj [(''x'', JNum 1)], JObj [(''x'', JNum 2)],
      JObj [(''x'', JNum 3)], JObj [(''x'', JNum 4)], JObj [(''x'', JNum 5)],
      JObj [(''x'', JNum 6)], JObj [(''x'', JNum 7)], JObj [(''x'', JNum 8)],
      JObj [(''x'', JNum 9)]]
   \<and> enforceTabularLimits [JObj [(''x'', JNum 0)], JObj [(''x'', JNum 1)], JObj [(''x'', JNum 2)],
      JObj [(''x'', JNum 3)], JObj [(''x'', JNum 4)], JObj [(''x'', JNum 5)],
      JObj [(''x'', JNum 6)], JObj [(''x'', JNum 7)], JObj [(''x'', JNum 8)],
      JObj [(''x'', JNum 9)]] ''CSV parse'' = Inr ()
   \<and> convert_to_json ''CSV parse'' [JObj [(''x'', JNum 0)], JObj [(''x'', JNum 1)], JObj [(''x'', JNum 2)],
      JObj [(''x'', JNum 3)], JObj [(''x'', JNum 4)], JObj [(''x'', JNum 5)],
      JObj [(''x'', JNum 6)], JObj [(''x'', JNum 7)], JObj [(''x'', JNum 8)],
      JObj [(''x'', JNum 9)]]
       (Some [JObj [(''x'', JStr ''a'')], JObj [(''x'', JStr ''b'')], JObj [(''x'', JStr ''c'')]]) None
     = [CONVERSION_SUCCESS
         [JObj [(''x'', JStr ''a'')], JObj [(''x'', JStr ''b'')], JObj [(''x'', JStr ''c'')],
          JObj [(''x'', JNum 3)], JObj [(''x'', JNum 4)], JObj [(''x'', JNum 5)],
          JObj [(''x'', JNum 6)], JObj [(''x'', JNum 7)], JObj [(''x'', JNum 8)],
          JObj [(''x'', JNum 9)]] None]"
proof -
  let ?data = "[JObj [(''x'', JNum 0)], JObj [(''x'', JNum 1)], JObj [(''x'', JNum 2)],
      JObj [(''x'', JNum 3)], JObj [(''x'', JNum 4)], JObj [(''x'', JNum 5)],
      JObj [(''x'', JNum 6)], JObj [(''x'', JNum 7)], JObj [(''x'', JNum 8)],
      JObj [(''x'', JNum 9)]]"
  let ?ow = "[JObj [(''x'', JStr ''a'')], JObj [(''x'', JStr ''b'')], JObj [(''x'', JStr ''c'')]]"
  have h1: "length ?ow \<le> length ?data" by simp
  have h2: "enforceTabularLimits ?data ''CSV parse'' = Inr ()"
    by (simp add: enforceTabularLimits_def MAX_ROWS_def MAX_COLUMNS_def MAX_CELL_CHARS_def set_add_def)
  have r: "apply_overwriteRows (Some ?ow) ?data = ?ow @ drop (length ?ow) ?data"
    by (rule apply_overwriteRows_eq [OF h1])
  from C8_overwriteRows [OF h1 h2 refl, of None]
  have "convert_to_json ''CSV parse'' ?data (Some ?ow) None
      = [CONVERSION_SUCCESS (apply_overwriteRows (Some ?ow) ?data) None]"
    by blast
  then have "convert_to_json ''CSV parse'' ?data (Some ?ow) None
      = [CONVERSION_SUCCESS (?ow @ drop (length ?ow) ?data) None]"
    by (simp only: r)
  then show ?thesis using h1 h2 by simp
qed

section \<open>Properties of the limit guard\<close>

lemma scan_entries_append:
  "scan_entries ctx columnSet (xs @ ys) =
     (case scan_entries ctx columnSet xs of
        Inl e \<Rightarrow> Inl e
      | Inr columnSet' \<Rightarrow> scan_entries ctx columnSet' ys)"
  by (induction ctx columnSet xs rule: scan_entries.induct) (simp_all add: Let_def)

lemma scan_rows_cells:
  "scan_rows ctx columnSet rows = scan_entries ctx columnSet (scanned_cells rows)"
proof (induction rows arbitrary: columnSet)
  case Nil
  show ?case by (simp add: scanned_cells_def)
next
  case (Cons row rows)
  show ?case
  proof (cases "falsy row \<or> \<not> typeof_object row")
    case True
    then have "scanned_cells (row # rows) = scanned_cells rows"
      by (auto simp: scanned_cells_def)
    with True show ?thesis using Cons.IH [of columnSet] by auto
  next
    case False
    then have "scanned_cells (row # rows) = entries row @ scanned_cells rows"
      by (auto simp: scanned_cells_def)
    with False show ?thesis
      by (simp add: scan_entries_append Cons.IH split: sum.split)
  qed
qed

lemma set_add_props:
  "distinct columnSet \<Longrightarrow>
   distinct (set_add k columnSet) \<and> set (set_add k columnSet) = insert k (set columnSet)"
  by (auto simp: set_add_def)

text \<open>Cells without a violation are passed, and the keys seen are accumulated.\<close>

lemma scan_entries_pass:
  "distinct columnSet \<Longrightarrow> card (set columnSet \<union> fst ` set xs) \<le> MAX_COLUMNS \<Longrightarrow>
   \<forall>c \<in> set xs. \<not> too_long (snd c) \<Longrightarrow>
   \<exists>columnSet'. scan_entries ctx columnSet xs = Inr columnSet' \<and> distinct columnSet'
      \<and> set columnSet' = set columnSet \<union> fst ` set xs"
proof (induction xs arbitrary: columnSet)
  case Nil
  then show ?case by simp
next
  case (Cons c xs)
  obtain key v where c: "c = (key, v)" by (cases c)
  let ?cs = "set_add key columnSet"
  from Cons.prems(1) have d: "distinct ?cs" and s: "set ?cs = insert key (set columnSet)"
    using set_add_props by blast+
  have eq: "set ?cs \<union> fst ` set xs = set columnSet \<union> fst ` set (c # xs)"
    by (auto simp: s c)
  have "length ?cs = card (set ?cs)"
    using d by (simp add: distinct_card)
  also have "\<dots> \<le> card (set columnSet \<union> fst ` set (c # xs))"
    by (rule card_mono) (auto simp: s c)
  finally have small: "length ?cs \<le> MAX_COLUMNS"
    using Cons.prems(2) by simp
  from Cons.prems(3) have ok: "\<not> too_long v" and rest: "\<forall>c \<in> set xs. \<not> too_long (snd c)"
    by (simp_all add: c)
  from Cons.IH [OF d _ rest] Cons.prems(2) eq
  obtain columnSet' where "scan_entries ctx ?cs xs = Inr columnSet'"
    and "distinct columnSet'" and "set columnSet' = set ?cs \<union> fst ` set xs"
    by auto
  with small ok eq show ?case
    by (simp add: c Let_def)
qed

text \<open>The outcome of the scan at the first cell that violates a limit.\<close>

lemma scan_entries_first_violation:
  assumes "card (fst ` set pre) \<le> MAX_COLUMNS" and "\<forall>c \<in> set pre. \<not> too_long (snd c)"
  shows "card (fst ` set (pre @ [(k, v)])) > MAX_COLUMNS \<Longrightarrow>
           scan_entries ctx [] (pre @ (k, v) # post) = Inl (ColumnsExceeded ctx)"
    and "card (fst ` set (pre @ [(k, v)])) \<le> MAX_COLUMNS \<Longrightarrow> too_long v \<Longrightarrow>
           scan_entries ctx [] (pre @ (k, v) # post) = Inl (CellTooLarge ctx)"
proof -
  from scan_entries_pass [of "[]" pre ctx] assms
  obtain cs where pre: "scan_entries ctx [] pre = Inr cs" and d: "distinct cs"
    and s: "set cs = fst ` set pre"
    by auto
  from set_add_props [OF d, of k]
  have dk: "distinct (set_add k cs)" and sk: "set (set_add k cs) = insert k (set cs)"
    by blast+
  have "length (set_add k cs) = card (set (set_add k cs))"
    using dk by (simp only: distinct_card)
  also have "set (set_add k cs) = fst ` set (pre @ [(k, v)])"
    by (auto simp: sk s)
  finally have len: "length (set_add k cs) = card (fst ` set (pre @ [(k, v)]))" .
  show "card (fst ` set (pre @ [(k, v)])) > MAX_COLUMNS \<Longrightarrow>
      scan_entries ctx [] (pre @ (k, v) # post) = Inl (ColumnsExceeded ctx)"
    by (simp add: scan_entries_append pre Let_def len)
  show "card (fst ` set (pre @ [(k, v)])) \<le> MAX_COLUMNS \<Longrightarrow> too_long v \<Longrightarrow>
      scan_entries ctx [] (pre @ (k, v) # post) = Inl (CellTooLarge ctx)"
    by (simp add: scan_entries_append pre Let_def len)
qed

lemma enforce_rows:
  "length rows > MAX_ROWS \<Longrightarrow> enforceTabularLimits rows ctx = Inl (RowsExceeded ctx)"
  by (simp add: enforceTabularLimits_def)

lemma enforce_first_violation:
  assumes "length rows \<le> MAX_ROWS" and "scanned_cells rows = pre @ (k, v) # post"
    and "card (fst ` set pre) \<le> MAX_COLUMNS" and "\<forall>c \<in> set pre. \<not> too_long (snd c)"
  shows "card (fst ` set (pre @ [(k, v)])) > MAX_COLUMNS \<Longrightarrow>
           enforceTabularLimits rows ctx = Inl (ColumnsExceeded ctx)"
    and "card (fst ` set (pre @ [(k, v)])) \<le> MAX_COLUMNS \<Longrightarrow> too_long v \<Longrightarrow>
           enforceTabularLimits rows ctx = Inl (CellTooLarge ctx)"
  using assms(1)
  by (simp_all add: enforceTabularLimits_def scan_rows_cells assms(2)
      scan_entries_first_violation [OF assms(3,4)])

lemma enforce_pass:
  assumes "length rows \<le> MAX_ROWS" and "card (fst ` set (scanned_cells rows)) \<le> MAX_COLUMNS"
    and "\<forall>c \<in> set (scanned_cells rows). \<not> too_long (snd c)"
  shows "enforceTabularLimits rows ctx = Inr ()"
proof -
  from scan_entries_pass [of "[]" "scanned_cells rows" ctx] assms(2,3)
  obtain cs where "scan_entries ctx [] (scanned_cells rows) = Inr cs" by auto
  with assms(1) show ?thesis
    by (simp add: enforceTabularLimits_def scan_rows_cells)
qed

lemma too_long_iff: "too_long cell \<longleftrightarrow> (\<exists>s. cell = JStr s \<and> length s > 200000)"
  by (cases cell) (simp_all add: MAX_CELL_CHARS_def)

text \<open>
  C1 (as amended). A list of more than 100,000 rows fails with a rows-limit error.
  Otherwise the guard visits the cells of the rows in order and stops at the first cell
  that violates a limit: when the key of that cell takes the accumulated set of distinct
  column keys above 500 it fails with a columns-limit error, and otherwise, when the
  value of that cell is a string longer than 200,000 characters, with a cell-length
  error; without such a cell it passes. Whenever the guard fails, the only response of
  the request is the terminal error: no success response and no chunk batch is posted.
\<close>

theorem C1_limit_guard:
  "(length rows > 100000 \<longrightarrow> enforceTabularLimits rows ctx = Inl (RowsExceeded ctx))
   \<and> (length rows \<le> 100000 \<and> scanned_cells rows = pre @ (k, v) # post
        \<and> card (fst ` set pre) \<le> 500 \<and> (\<forall>c \<in> set pre. \<not> too_long (snd c))
      \<longrightarrow> (card (fst ` set (pre @ [(k, v)])) > 500
             \<longrightarrow> enforceTabularLimits rows ctx = Inl (ColumnsExceeded ctx))
          \<and> (card (fst ` set (pre @ [(k, v)])) \<le> 500 \<and> too_long v
             \<longrightarrow> enforceTabularLimits rows ctx = Inl (CellTooLarge ctx)))
   \<and> (length rows \<le> 100000 \<and> card (fst ` set (scanned_cells rows)) \<le> 500
        \<and> (\<forall>c \<in> set (scanned_cells rows). \<not> too_long (snd c))
      \<longrightarrow> enforceTabularLimits rows ctx = Inr ())
   \<and> (too_long cell \<longleftrightarrow> (\<exists>s. cell = JStr s \<and> length s > 200000))
   \<and> (enforceTabularLimits (processedData jsonData flatten) ''Preview parse'' = Inl e
      \<longrightarrow> parse_for_preview stream jsonData flatten ident = [CONVERSION_ERROR e ident])
   \<and> (enforceTabularLimits (if flatten then map flattenObject sheetRows else sheetRows)
          ''Excel preview parse'' = Inl e
      \<longrightarrow> preview_excel_stream sheetRows flatten ident = [CONVERSION_ERROR e ident])
   \<and> (enforceTabularLimits rows ctx = Inl e
      \<longrightarrow> convert_to_json ctx rows overwriteRows ident = [CONVERSION_ERROR e ident])"
proof -
  have rows: "length rows > 100000 \<longrightarrow> enforceTabularLimits rows ctx = Inl (RowsExceeded ctx)"
    using enforce_rows [of rows ctx] by (simp add: MAX_ROWS_def)
  have first: "length rows \<le> 100000 \<and> scanned_cells rows = pre @ (k, v) # post
        \<and> card (fst ` set pre) \<le> 500 \<and> (\<forall>c \<in> set pre. \<not> too_long (snd c))
      \<longrightarrow> (card (fst ` set (pre @ [(k, v)])) > 500
             \<longrightarrow> enforceTabularLimits rows ctx = Inl (ColumnsExceeded ctx))
          \<and> (card (fst ` set (pre @ [(k, v)])) \<le> 500 \<and> too_long v
             \<longrightarrow> enforceTabularLimits rows ctx = Inl (CellTooLarge ctx))"
    using enforce_first_violation [of rows pre k v post ctx]
    by (simp add: MAX_ROWS_def MAX_COLUMNS_def)
  have pass: "length rows \<le> 100000 \<and> card (fst ` set (scanned_cells rows)) \<le> 500
        \<and> (\<forall>c \<in> set (scanned_cells rows). \<not> too_long (snd c))
      \<longrightarrow> enforceTabularLimits rows ctx = Inr ()"
    using enforce_pass [of rows ctx] by (simp add: MAX_ROWS_def MAX_COLUMNS_def)
  have h1: "enforceTabularLimits (processedData jsonData flatten) ''Preview parse'' = Inl e
      \<longrightarrow> parse_for_preview stream jsonData flatten ident = [CONVERSION_ERROR e ident]"
    by (simp add: parse_for_preview_def)
  have h2: "enforceTabularLimits (if flatten then map flattenObject sheetRows else sheetRows)
          ''Excel preview parse'' = Inl e
      \<longrightarrow> preview_excel_stream sheetRows flatten ident = [CONVERSION_ERROR e ident]"
    by (simp add: preview_excel_stream_def Let_def)
  have h3: "enforceTabularLimits rows ctx = Inl e
      \<longrightarrow> convert_to_json ctx rows overwriteRows ident = [CONVERSION_ERROR e ident]"
    by (simp add: convert_to_json_def)
  from rows first pass too_long_iff [of cell] h1 h2 h3 show ?thesis by blast
qed

lemma unary_keys_card:
  "card (fst ` set (map (\<lambda>i. (replicate (Suc i) c, v)) [0..<n])) = n"
proof -
  have "fst ` set (map (\<lambda>i. (replicate (Suc i) c, v)) [0..<n]) = (\<lambda>i. replicate (Suc i) c) ` {0..<n}"
    by (auto simp: image_iff)
  moreover have "inj_on (\<lambda>i. replicate (Suc i) c) {0..<n}"
    by (rule inj_onI) (metis length_replicate nat.inject)
  ultimately show ?thesis by (simp add: card_image)
qed

lemma null_cells_short: "\<forall>c \<in> set (map (\<lambda>i. (g i, JNull)) xs). \<not> too_long (snd c)"
  by auto

theorem C1_limit_guard_witness:
  "enforceTabularLimits (replicate 100001 JNull) ''Preview parse''
     = Inl (RowsExceeded ''Preview parse'')
   \<and> enforceTabularLimits [JObj (map (\<lambda>i. (replicate (Suc i) CHR ''c'', JNull)) [0..<Suc 500])]
       ''Preview parse'' = Inl (ColumnsExceeded ''Preview parse'')
   \<and> enforceTabularLimits [JObj [(''a'', JStr (replicate 200001 CHR ''x''))]] ''Preview parse''
       = Inl (CellTooLarge ''Preview parse'')
   \<and> enforceTabularLimits [JObj [(''a'', JNum 1)]] ''Preview parse'' = Inr ()
   \<and> parse_for_preview True (JArr (replicate 100001 JNull)) False None
       = [CONVERSION_ERROR (RowsExceeded ''Preview parse'') None]
   \<and> preview_excel_stream (replicate 100001 JNull) False None
       = [CONVERSION_ERROR (RowsExceeded ''Excel preview parse'') None]
   \<and> convert_to_json ''Preview parse'' (replicate 100001 JNull) None None
       = [CONVERSION_ERROR (RowsExceeded ''Preview parse'') None]"
proof -
  let ?many = "replicate 100001 JNull"
  let ?f = "\<lambda>i. (replicate (Suc i) CHR ''c'', JNull)"
  let ?wide = "[JObj (map ?f [0..<Suc 500])]"
  let ?long = "JStr (replicate 200001 CHR ''x'')"
  let ?cell = "[JObj [(''a'', ?long)]]"
  let ?ok = "[JObj [(''a'', JNum 1)]]"
  have many: "length ?many > 100000"
    by (simp only: length_replicate)
  have w1: "enforceTabularLimits ?many ctx = Inl (RowsExceeded ctx)" for ctx
    using C1_limit_guard [where rows = ?many and ctx = ctx, THEN conjunct1] many
    by (rule mp)
  have cells: "scanned_cells ?wide = map ?f [0..<500] @ (replicate (Suc 500) CHR ''c'', JNull) # []"
    by (simp only: scanned_cells_def upt_Suc_append [of 0 500] map_append list.map
        filter.simps falsy.simps typeof_object.simps entries.simps concat.simps append_Nil2; simp)
  have c500: "card (fst ` set (map ?f [0..<500])) \<le> 500"
    by (simp only: unary_keys_card)
  have "map ?f [0..<500] @ [(replicate (Suc 500) CHR ''c'', JNull)] = map ?f [0..<Suc 500]"
    by (simp only: upt_Suc_append [of 0 500] map_append list.map)
  then have c501: "card (fst ` set (map ?f [0..<500] @ [(replicate (Suc 500) CHR ''c'', JNull)])) > 500"
    by (simp only: unary_keys_card)
  have short: "\<forall>c \<in> set (map ?f [0..<500]). \<not> too_long (snd c)"
    by (rule null_cells_short)
  have one: "length ?wide \<le> 100000" "length ?cell \<le> 100000" "length ?ok \<le> 100000"
    by simp_all
  have w2: "enforceTabularLimits ?wide ''Preview parse'' = Inl (ColumnsExceeded ''Preview parse'')"
    using C1_limit_guard [where rows = ?wide and ctx = "''Preview parse''"
        and pre = "map ?f [0..<500]" and k = "replicate (Suc 500) CHR ''c''" and v = JNull
        and post = "[]", THEN conjunct2, THEN conjunct1]
      one(1) cells c500 c501 short
    by blast
  have long: "too_long ?long"
    using C1_limit_guard [where cell = ?long, THEN conjunct2, THEN conjunct2, THEN conjunct2,
        THEN conjunct1]
    by (simp only: length_replicate; simp)
  have cell1: "scanned_cells ?cell = [] @ (''a'', ?long) # []"
    and ok1: "scanned_cells ?ok = [(''a'', JNum 1)]"
    by (simp_all add: scanned_cells_def)
  have small: "card (fst ` set ([] :: (string \<times> jsval) list)) \<le> 500"
    "card (fst ` set ([] @ [(''a'', ?long)])) \<le> 500"
    "card (fst ` set [(''a'', JNum 1)]) \<le> 500"
    by simp_all
  have w3: "enforceTabularLimits ?cell ''Preview parse'' = Inl (CellTooLarge ''Preview parse'')"
    using C1_limit_guard [where rows = ?cell and ctx = "''Preview parse''"
        and pre = "[]" and k = "''a''" and v = ?long and post = "[]",
        THEN conjunct2, THEN conjunct1]
      one(2) cell1 small(1,2) long
    by simp
  have w4: "enforceTabularLimits ?ok ''Preview parse'' = Inr ()"
    using C1_limit_guard [where rows = ?ok and ctx = "''Preview parse''",
        THEN conjunct2, THEN conjunct2, THEN conjunct1]
      one(3) small(3)
    by (simp add: ok1)
  have pd: "processedData (JArr ?many) False = ?many"
    by (simp only: processedData_def Let_def jsval.case if_False)
  have w5: "parse_for_preview True (JArr ?many) False None
      = [CONVERSION_ERROR (RowsExceeded ''Preview parse'') None]"
    using C1_limit_guard [where jsonData = "JArr ?many" and flatten = False
        and e = "RowsExceeded ''Preview parse''" and stream = True and ident = None,
        THEN conjunct2, THEN conjunct2, THEN conjunct2, THEN conjunct2, THEN conjunct1]
      w1 [of "''Preview parse''"]
    by (simp only: pd)
  have w6: "preview_excel_stream ?many False None
      = [CONVERSION_ERROR (RowsExceeded ''Excel preview parse'') None]"
    using C1_limit_guard [where sheetRows = ?many and flatten = False
        and e = "RowsExceeded ''Excel preview parse''" and ident = None,
        THEN conjunct2, THEN conjunct2, THEN conjunct2, THEN conjunct2, THEN conjunct2,
        THEN conjunct1]
      w1 [of "''Excel preview parse''"]
    by (simp only: if_False)
  have w7: "convert_to_json ''Preview parse'' ?many None None
      = [CONVERSION_ERROR (RowsExceeded ''Preview parse'') None]"
    using C1_limit_guard [where rows = ?many and ctx = "''Preview parse''"
        and e = "RowsExceeded ''Preview parse''" and overwriteRows = None and ident = None,
        THEN conjunct2, THEN conjunct2, THEN conjunct2, THEN conjunct2, THEN conjunct2,
        THEN conjunct2]
      w1 [of "''Preview parse''"]
    by (rule mp)
  from w1 [of "''Preview parse''"] w2 w3 w4 w5 w6 w7 show ?thesis
    by (intro conjI)
qed

text \<open>
  The claim as stated promises a cell-length error for any string cell longer than
  200,000 characters. In a list of 100,001 rows the guard never looks at a cell: it fails
  with the rows-limit error.
\<close>

theorem C1_long_cell_counterexample:
  "too_long (JStr (replicate 200001 CHR ''x''))
   \<and> enforceTabularLimits
        (replicate 100001 (JObj [(''a'', JStr (replicate 200001 CHR ''x''))])) ''Preview parse''
       = Inl (RowsExceeded ''Preview parse'')
   \<and> enforceTabularLimits
        (replicate 100001 (JObj [(''a'', JStr (replicate 200001 CHR ''x''))])) ''Preview parse''
       \<noteq> Inl (CellTooLarge ''Preview parse'')"
  by (simp add: enforceTabularLimits_def MAX_ROWS_def MAX_CELL_CHARS_def)

section \<open>Properties of the normalizers\<close>

lemma update_absent: "k \<notin> fst ` set fs \<Longrightarrow> AList.update k v fs = fs @ [(k, v)]"
  by (induction fs) auto

lemma assign_fresh:
  "k \<noteq> ''__proto__'' \<Longrightarrow> k \<notin> fst ` set fs \<Longrightarrow> assign k v (fs, b) = (fs @ [(k, v)], b)"
  by (simp add: assign_def update_absent)

lemma scalar_iff: "scalar v \<longleftrightarrow> \<not> (v \<noteq> JNull \<and> typeof_object v)"
  by (cases v) simp_all

lemma scalar_not_array: "scalar v \<Longrightarrow> \<not> isArray v"
  by (cases v) simp_all

subsection \<open>flattenObject\<close>

text \<open>The example of the specification.\<close>

lemma flattenObject_example:
  "flattenObject (JObj [(''a'', JObj [(''b'', JNum 1), (''c'', JArr [JNum 2, JNum 3])])])
     = JObj [(''a.b'', JNum 1), (''a.c'', JStr ''[2,3]'')]"
  by (simp add: flattenObject_def new_object_def assign_def show_int_def digit_char_def)

text \<open>
  A record whose fields are scalars is returned as it is, provided no field is named
  \<^verbatim>\<open>__proto__\<close>.
\<close>

lemma flatten_props_flat:
  "\<forall>v \<in> snd ` set es. scalar v \<Longrightarrow> distinct (map fst (acc @ es)) \<Longrightarrow>
   ''__proto__'' \<notin> fst ` set es \<Longrightarrow>
   flatten_props [] es st (acc, b) = (st, (acc @ es, b))"
proof (induction es arbitrary: acc)
  case Nil
  show ?case by simp
next
  case (Cons e es)
  obtain k v where e: "e = (k, v)" by (cases e)
  from Cons.prems e have sv: "scalar v" and k: "k \<noteq> ''__proto__''" and fresh: "k \<notin> fst ` set acc"
    by auto
  from Cons.prems e have rest: "\<forall>v \<in> snd ` set es. scalar v"
    "distinct (map fst ((acc @ [(k, v)]) @ es))" "''__proto__'' \<notin> fst ` set es"
    by auto
  from sv have "flatten_props [] (e # es) st (acc, b) = flatten_props [] es st (acc @ [(k, v)], b)"
    unfolding e by (cases v) (simp_all add: assign_fresh [OF k fresh])
  with Cons.IH [OF rest] show ?case
    by (simp add: e)
qed

lemma flattenObject_flat_record:
  assumes "\<forall>v \<in> snd ` set kvs. scalar v" and "distinct (map fst kvs)"
    and "''__proto__'' \<notin> fst ` set kvs"
  shows "flattenObject (JObj kvs) = JObj kvs"
  using flatten_props_flat [of kvs "[]" "[]" True] assms
  by (simp add: flattenObject_def new_object_def)

text \<open>The result of flattening has distinct keys and scalar fields only.\<close>

lemma set_update_subset: "set (AList.update k v fs) \<subseteq> insert (k, v) (set fs)"
  by (induction fs) auto

lemma assign_flat: "scalar v \<Longrightarrow> flat_fields ob \<Longrightarrow> flat_fields (assign k v ob)"
  using set_update_subset [of k v "fst ob"]
  by (auto simp: flat_fields_def assign_def distinct_update)

lemma flatten_props_scalar:
  "scalar v \<Longrightarrow>
   flatten_props prefix ((k, v) # es) st r =
     flatten_props prefix es st (assign (if prefix \<noteq> [] then prefix @ ''.'' @ k else k) v r)"
  by (cases v) simp_all

lemma flatten_props_flat_fields:
  "flat_fields r \<Longrightarrow> flat_fields (snd (flatten_props prefix es st r))"
proof (induction es arbitrary: st r)
  case Nil
  then show ?case by simp
next
  case (Cons e es)
  obtain k v where e: "e = (k, v)" by (cases e)
  define newKey where "newKey = (if prefix \<noteq> [] then prefix @ ''.'' @ k else k)"
  show ?case
  proof (cases v)
    case (JObj kvs)
    then have "flatten_props prefix (e # es) st r = flatten_props prefix es ((v, newKey) # st) r"
      by (simp add: e newKey_def)
    with Cons.IH [OF Cons.prems] show ?thesis by simp
  next
    case (JArr xs)
    then have "flatten_props prefix (e # es) st r
        = flatten_props prefix es st (assign newKey (JStr (JSON_stringify v)) r)"
      by (simp add: e newKey_def)
    moreover have "flat_fields (assign newKey (JStr (JSON_stringify v)) r)"
      using Cons.prems by (simp add: assign_flat)
    ultimately show ?thesis using Cons.IH by simp
  qed (use Cons in \<open>simp_all add: e flatten_props_scalar assign_flat del: flatten_props.simps\<close>)
qed

lemma flatten_loop_flat_fields:
  "flat_fields r \<Longrightarrow> flat_fields (flatten_loop st r)"
proof (induction st r rule: flatten_loop.induct)
  case (1 result)
  then show ?case by simp
next
  case (2 current prefix stack result)
  obtain st' r' where step: "flatten_props prefix (entries current) stack result = (st', r')"
    by (cases "flatten_props prefix (entries current) stack result")
  with flatten_props_flat_fields [OF "2.prems", of prefix "entries current" stack]
  have "flat_fields r'" by simp
  with "2.IH" [OF step [symmetric]] show ?case
    by (simp add: step)
qed

lemma flattenObject_result_flat:
  "flattenObject obj = JObj fs \<Longrightarrow> obj \<noteq> JNull \<Longrightarrow> typeof_object obj \<Longrightarrow>
   distinct (map fst fs) \<and> (\<forall>v \<in> snd ` set fs. scalar v)"
  using flatten_loop_flat_fields [of new_object "[(obj, [])]"]
  by (auto simp: flattenObject_def flat_fields_def new_object_def)

text \<open>
  Flattening twice gives what flattening once gives, provided the first result has no
  field named \<^verbatim>\<open>__proto__\<close>.
\<close>

lemma flattenObject_idempotent:
  assumes "\<And>fs. flattenObject r = JObj fs \<Longrightarrow> ''__proto__'' \<notin> fst ` set fs"
  shows "flattenObject (flattenObject r) = flattenObject r"
proof (cases "r = JNull \<or> \<not> typeof_object r")
  case True
  then show ?thesis by (simp add: flattenObject_def)
next
  case False
  then obtain fs where fs: "flattenObject r = JObj fs"
    by (simp add: flattenObject_def)
  with False have "distinct (map fst fs)" and "\<forall>v \<in> snd ` set fs. scalar v"
    using flattenObject_result_flat [of r fs] by auto
  with assms [OF fs] show ?thesis
    by (simp add: fs flattenObject_flat_record)
qed

subsection \<open>sanitizeForTabular\<close>

lemma sanitize_fold:
  "distinct (map fst (acc @ es)) \<Longrightarrow> ''__proto__'' \<notin> fst ` set es \<Longrightarrow>
   fold (\<lambda>(key, value). assign key (sanitize_value value)) es (acc, b)
     = (acc @ map (\<lambda>(key, value). (key, sanitize_value value)) es, b)"
proof (induction es arbitrary: acc)
  case Nil
  show ?case by simp
next
  case (Cons e es)
  obtain k v where e: "e = (k, v)" by (cases e)
  from Cons.prems e have k: "k \<noteq> ''__proto__''" and fresh: "k \<notin> fst ` set acc"
    by auto
  from Cons.prems e have rest: "distinct (map fst ((acc @ [(k, sanitize_value v)]) @ es))"
    "''__proto__'' \<notin> fst ` set es"
    by auto
  show ?case
    using Cons.IH [OF rest]
    by (simp add: e assign_fresh [OF k fresh])
qed

text \<open>
  The sanitize path keeps the number and the order of the items. An item that is not a
  non-null object becomes \<^verbatim>\<open>{value: item}\<close>. In an object item without a field named
  \<^verbatim>\<open>__proto__\<close>, every field keeps its place and name, an object or array value is
  replaced by its serialisation, and a scalar value is unchanged.
\<close>

lemma sanitizeForTabular_items:
  "length (sanitizeForTabular data) = length data"
  "i < length data \<Longrightarrow> sanitizeForTabular data ! i = sanitize_item (data ! i)"
  by (simp_all add: sanitizeForTabular_def)

lemma sanitize_item_scalar:
  "\<not> typeof_object item \<or> item = JNull \<Longrightarrow> sanitize_item item = JObj [(''value'', item)]"
  by (simp add: sanitize_item_def)

lemma sanitize_item_object:
  assumes "typeof_object item" and "item \<noteq> JNull"
    and "distinct (map fst (entries item))" and "''__proto__'' \<notin> fst ` set (entries item)"
  shows "sanitize_item item = JObj (map (\<lambda>(key, value). (key, sanitize_value value)) (entries item))"
  using sanitize_fold [of "[]" "entries item" True] assms
  by (simp add: sanitize_item_def new_object_def)

lemma sanitize_value_cases:
  "scalar v \<Longrightarrow> sanitize_value v = v"
  "\<not> scalar v \<Longrightarrow> sanitize_value v = JStr (JSON_stringify v)"
  by (cases v; simp add: sanitize_value_def)+

text \<open>
  C7. The example of the specification holds (\<open>flattenObject_example\<close>), and so do the
  identity on flat records and the idempotence for records without a field named
  \<^verbatim>\<open>__proto__\<close> (\<open>flattenObject_flat_record\<close>, \<open>flattenObject_idempotent\<close>). For the flat
  record \<^verbatim>\<open>{"__proto__": 1}\<close>, which \<^verbatim>\<open>JSON.parse\<close> produces with \<^verbatim>\<open>__proto__\<close> as an own
  field, flattening does not return an equal record: the field is lost.
\<close>

theorem C7_flatten_loses_proto_field:
  "flattenObject (JObj [(''__proto__'', JNum 1)]) = JObj []
   \<and> flattenObject (JObj [(''__proto__'', JNum 1)]) \<noteq> JObj [(''__proto__'', JNum 1)]"
  by (simp add: flattenObject_def new_object_def assign_def)

text \<open>
  Once \<^verbatim>\<open>null\<close> has been assigned to \<^verbatim>\<open>__proto__\<close> the result has no prototype, and a later
  assignment to \<^verbatim>\<open>__proto__\<close> does create a field; flattening the result again loses it.
\<close>

lemma flattenObject_twice_differs:
  "flattenObject (JObj [([], JObj [(''__proto__'', JNum 5)]), (''__proto__'', JNull)])
     = JObj [(''__proto__'', JNum 5)]
   \<and> flattenObject (flattenObject
        (JObj [([], JObj [(''__proto__'', JNum 5)]), (''__proto__'', JNull)])) = JObj []"
  by (simp add: flattenObject_def new_object_def assign_def)

text \<open>
  C10. The sanitize path keeps the number and order of the items, wraps an item that is
  not a non-null object, and treats the fields of an object item as claimed when none is
  named \<^verbatim>\<open>__proto__\<close> (\<open>sanitizeForTabular_items\<close>, \<open>sanitize_item_scalar\<close>,
  \<open>sanitize_item_object\<close>). A scalar field named \<^verbatim>\<open>__proto__\<close> does not pass through: it
  is lost.
\<close>

theorem C10_sanitize_loses_proto_field:
  "sanitizeForTabular [JObj [(''__proto__'', JNum 1), (''a'', JNum 2)]] = [JObj [(''a'', JNum 2)]]"
  by (simp add: sanitizeForTabular_def sanitize_item_def sanitize_value_def new_object_def assign_def)

section \<open>Properties of the orchestrator\<close>

subsection \<open>What cancelAll does to the state it tracks\<close>

lemma fold_clearTimeout:
  "fold (\<lambda>entry. clearTimeout (snd entry)) ds w =
     w\<lparr> timers := filter (\<lambda>t. fst t \<notin> snd ` set ds) (timers w) \<rparr>"
proof (induction ds arbitrary: w)
  case Nil
  show ?case by simp
next
  case (Cons d ds)
  have "filter (\<lambda>t. fst t \<notin> snd ` set ds) (AList.delete (snd d) (timers w))
      = filter (\<lambda>t. fst t \<notin> snd ` set (d # ds)) (timers w)"
    by (auto simp: AList.delete_eq intro: filter_cong)
  then have "(clearTimeout (snd d) w)
      \<lparr> timers := filter (\<lambda>t. fst t \<notin> snd ` set ds) (timers (clearTimeout (snd d) w)) \<rparr>
      = w\<lparr> timers := filter (\<lambda>t. fst t \<notin> snd ` set (d # ds)) (timers w) \<rparr>"
    by (simp add: clearTimeout_def)
  with Cons.IH [of "clearTimeout (snd d) w"] show ?case
    by simp
qed

lemma settle_frame [simp]:
  "worker (settle p out w) = worker w"
  "messageHandlers (settle p out w) = messageHandlers w"
  "errorHandlers (settle p out w) = errorHandlers w"
  "progressHandlers (settle p out w) = progressHandlers w"
  "debounceTimers (settle p out w) = debounceTimers w"
  "timers (settle p out w) = timers w"
  "sent (settle p out w) = sent w"
  "terminated (settle p out w) = terminated w"
  by (simp_all add: settle_def)

lemma fold_settle_frame [simp]:
  "worker (fold (\<lambda>entry. settle (snd entry) out) es w) = worker w"
  "debounceTimers (fold (\<lambda>entry. settle (snd entry) out) es w) = debounceTimers w"
  "timers (fold (\<lambda>entry. settle (snd entry) out) es w) = timers w"
  "sent (fold (\<lambda>entry. settle (snd entry) out) es w) = sent w"
  "terminated (fold (\<lambda>entry. settle (snd entry) out) es w) = terminated w"
  by (induction es arbitrary: w) simp_all

lemma settle_pending:
  "p \<notin> fst ` set (promises w) \<Longrightarrow> map_of (promises (settle p out w)) p = Some out"
  by (simp add: settle_def map_add_def map_of_eq_None_iff [THEN iffD2])

lemma settle_keeps:
  "map_of (promises w) q = Some res \<Longrightarrow> map_of (promises (settle p out w)) q = Some res"
  by (simp add: settle_def map_add_def)

lemma settle_other:
  "q \<noteq> p \<Longrightarrow> q \<notin> fst ` set (promises w) \<Longrightarrow> q \<notin> fst ` set (promises (settle p out w))"
  by (auto simp: settle_def)

lemma fold_settle_keeps:
  "map_of (promises w) q = Some res \<Longrightarrow>
   map_of (promises (fold (\<lambda>entry. settle (snd entry) out) es w)) q = Some res"
  by (induction es arbitrary: w) (simp_all add: settle_keeps)

lemma fold_settle_rejects:
  "p \<in> snd ` set es \<Longrightarrow> p \<notin> fst ` set (promises w) \<Longrightarrow>
   map_of (promises (fold (\<lambda>entry. settle (snd entry) out) es w)) p = Some out"
proof (induction es arbitrary: w)
  case Nil
  then show ?case by simp
next
  case (Cons e es)
  show ?case
  proof (cases "snd e = p")
    case True
    with Cons.prems(2) have "map_of (promises (settle (snd e) out w)) p = Some out"
      by (simp add: settle_pending)
    then show ?thesis by (simp add: fold_settle_keeps)
  next
    case False
    with Cons.prems have "p \<in> snd ` set es" and "p \<notin> fst ` set (promises (settle (snd e) out w))"
      by (auto simp: settle_other)
    then show ?thesis using Cons.IH by simp
  qed
qed

text \<open>
  \<^verbatim>\<open>cancelAll\<close> clears exactly the timeouts recorded in \<open>debounceTimers\<close>, rejects with
  \<open>reason\<close> the promise of every entry of \<open>errorHandlers\<close> that is still pending, empties
  the four maps, and terminates and releases the worker.
\<close>

lemma cancelAll_tracked:
  "timers (cancelAll reason w) = filter (\<lambda>t. fst t \<notin> snd ` set (debounceTimers w)) (timers w)"
  "debounceTimers (cancelAll reason w) = []"
  "messageHandlers (cancelAll reason w) = []"
  "errorHandlers (cancelAll reason w) = []"
  "progressHandlers (cancelAll reason w) = []"
  "worker (cancelAll reason w) = None"
  "worker w = Some wk \<Longrightarrow> wk \<in> set (terminated (cancelAll reason w))"
  by (simp_all add: cancelAll_def Let_def fold_clearTimeout split: option.split)

lemma cancelAll_rejects:
  assumes "(ident, p) \<in> set (errorHandlers w)" and "p \<notin> fst ` set (promises w)"
  shows "map_of (promises (cancelAll reason w)) p = Some (Rejected reason)"
proof -
  let ?w2 = "(fold (\<lambda>entry. clearTimeout (snd entry)) (debounceTimers w) w)\<lparr> debounceTimers := [] \<rparr>"
  have e: "errorHandlers ?w2 = errorHandlers w" and pr: "promises ?w2 = promises w"
    by (simp_all add: fold_clearTimeout)
  from assms(1) have "p \<in> snd ` set (errorHandlers ?w2)"
    by (metis e image_eqI snd_conv)
  moreover from assms(2) have "p \<notin> fst ` set (promises ?w2)"
    by (simp add: pr)
  ultimately have "map_of (promises (fold (\<lambda>entry. settle (snd entry) (Rejected reason))
      (errorHandlers ?w2) ?w2)) p = Some (Rejected reason)"
    by (rule fold_settle_rejects)
  then show ?thesis
    by (simp add: cancelAll_def Let_def split: option.split)
qed

lemma cancelAll_no_timer_left:
  "fst ` set (timers w) \<subseteq> snd ` set (debounceTimers w) \<Longrightarrow> timers (cancelAll reason w) = []"
  by (auto simp: cancelAll_tracked filter_empty_conv)

subsection \<open>A burst of debounced submissions\<close>

lemma delete_last: "k \<notin> fst ` set xs \<Longrightarrow> AList.delete k (xs @ [(k, c)]) = xs"
  by (induction xs) auto

lemma worker_init: "worker (init w) \<noteq> None"
  by (simp add: init_def)

lemma submit_debounced:
  assumes "fst (snd (snd s)) > 0"
  shows "timers (submit ty s w) =
           other_timers ty w @ [(nextTimer w,
             \<lparr> ctype = ty, cpayload = fst s, ctransfer = fst (snd s),
               conProgress = snd (snd (snd s)), cpromise = nextPromise w \<rparr>)]"
    and "debounceTimers (submit ty s w) = AList.update ty (nextTimer w) (debounceTimers w)"
    and "nextTimer (submit ty s w) = nextTimer w + 1"
    and "nextPromise (submit ty s w) = nextPromise w + 1"
    and "messageId (submit ty s w) = messageId w"
    and "sent (submit ty s w) = sent w"
    and "worker (submit ty s w) = worker (init w)"
  using assms
  by (simp_all add: submit_def postMessage_def init_def clearTimeout_def other_timers_def Let_def
      split: option.split)

lemma other_timers_subset: "fst ` set (other_timers ty w) \<subseteq> fst ` set (timers w)"
  by (auto simp: other_timers_def AList.delete_eq split: option.split)

text \<open>
  After a burst of debounced submissions exactly one timeout of the burst is pending, the
  one of the last submission; nothing has been posted yet.
\<close>

lemma burst_state:
  assumes "subs \<noteq> []" and "\<forall>s \<in> set subs. fst (snd (snd s)) > 0"
    and "\<forall>t \<in> fst ` set (timers w). t < nextTimer w"
  shows "timers (submit_burst ty subs w) =
           other_timers ty w @ [(nextTimer w + (length subs - 1),
             \<lparr> ctype = ty, cpayload = fst (last subs), ctransfer = fst (snd (last subs)),
               conProgress = snd (snd (snd (last subs))),
               cpromise = nextPromise w + (length subs - 1) \<rparr>)]
       \<and> map_of (debounceTimers (submit_burst ty subs w)) ty = Some (nextTimer w + (length subs - 1))
       \<and> nextTimer (submit_burst ty subs w) = nextTimer w + length subs
       \<and> nextPromise (submit_burst ty subs w) = nextPromise w + length subs
       \<and> messageId (submit_burst ty subs w) = messageId w
       \<and> sent (submit_burst ty subs w) = sent w
       \<and> worker (submit_burst ty subs w) = worker (init w)"
  using assms(1,2)
proof (induction subs rule: rev_nonempty_induct)
  case (single s)
  then have "fst (snd (snd s)) > 0" by simp
  then show ?case
    by (simp add: submit_burst_def submit_debounced update_Some_unfold)
next
  case (snoc s subs)
  let ?w = "submit_burst ty subs w"
  let ?t = "nextTimer w + (length subs - 1)"
  from snoc.prems have pos: "fst (snd (snd s)) > 0" and rest: "\<forall>s \<in> set subs. fst (snd (snd s)) > 0"
    by simp_all
  note ih = snoc.IH [OF rest]
  from ih obtain c where tm: "timers ?w = other_timers ty w @ [(?t, c)]" by blast
  from ih have dt: "map_of (debounceTimers ?w) ty = Some ?t" by blast
  from ih have nt: "nextTimer ?w = nextTimer w + length subs"
    and np: "nextPromise ?w = nextPromise w + length subs"
    and mi: "messageId ?w = messageId w" and se: "sent ?w = sent w"
    and wo: "worker ?w = worker (init w)"
    by blast+
  have fresh: "?t \<notin> fst ` set (other_timers ty w)"
    using assms(3) other_timers_subset [of ty w] by fastforce
  have "other_timers ty ?w = AList.delete ?t (other_timers ty w @ [(?t, c)])"
    by (simp add: other_timers_def dt tm)
  also have "\<dots> = other_timers ty w"
    using fresh by (rule delete_last)
  finally have ot: "other_timers ty ?w = other_timers ty w" .
  have step: "submit_burst ty (subs @ [s]) w = submit ty s ?w"
    by (simp add: submit_burst_def)
  from snoc.hyps have len: "length (subs @ [s]) - 1 = length subs" by simp
  have "init ?w = ?w"
    by (simp add: init_def wo worker_init)
  then have wo': "worker (init ?w) = worker (init w)"
    by (simp add: wo)
  show ?case
    unfolding step len
    by (simp add: submit_debounced [OF pos] ot nt np mi se wo' update_Some_unfold)
qed

lemma fire_last_timer:
  assumes "timers w = base @ [(t, c)]" and "t \<notin> fst ` set base" and "worker w = Some wk"
  shows "dispatched (fire_timer t w) = dispatched w @ [cpayload c]"
    and "timers (fire_timer t w) = base"
proof -
  from assms(2) have look: "map_of (timers w) t = Some c"
    by (simp add: assms(1) map_add_def map_of_eq_None_iff [THEN iffD2])
  from assms(2) have del: "AList.delete t (timers w) = base"
    by (simp add: assms(1) delete_last)
  show "dispatched (fire_timer t w) = dispatched w @ [cpayload c]"
    by (simp add: fire_timer_def look del executePostMessage_def Let_def assms(3) dispatched_def
        split: option.split prod.split)
  show "timers (fire_timer t w) = base"
    by (simp add: fire_timer_def look del executePostMessage_def Let_def assms(3)
        split: option.split prod.split)
qed

text \<open>
  When that timeout fires, one message is posted, with the payload of the last
  submission, and no timeout of the burst is left.
\<close>

lemma burst_dispatches_last:
  assumes "subs \<noteq> []" and "\<forall>s \<in> set subs. fst (snd (snd s)) > 0"
    and "\<forall>t \<in> fst ` set (timers w). t < nextTimer w"
  shows "dispatched (fire_timer (nextTimer w + (length subs - 1)) (submit_burst ty subs w))
           = dispatched w @ [fst (last subs)]
       \<and> timers (fire_timer (nextTimer w + (length subs - 1)) (submit_burst ty subs w))
           = other_timers ty w"
proof -
  define w' where "w' = submit_burst ty subs w"
  define t where "t = nextTimer w + (length subs - 1)"
  define c where "c = \<lparr> ctype = ty, cpayload = fst (last subs), ctransfer = fst (snd (last subs)),
               conProgress = snd (snd (snd (last subs))),
               cpromise = nextPromise w + (length subs - 1) \<rparr>"
  from burst_state [OF assms, of ty]
  have tm: "timers w' = other_timers ty w @ [(t, c)]" and se: "sent w' = sent w"
    and wo: "worker w' = worker (init w)"
    unfolding w'_def t_def c_def by blast+
  have fresh: "t \<notin> fst ` set (other_timers ty w)"
    using assms(3) other_timers_subset [of ty w] unfolding t_def by fastforce
  obtain wk where wk: "worker w' = Some wk"
    using wo worker_init [of w] by auto
  have "dispatched w' = dispatched w"
    by (simp add: dispatched_def se)
  moreover have "cpayload c = fst (last subs)"
    by (simp add: c_def)
  ultimately show ?thesis
    using fire_last_timer [OF tm fresh wk] unfolding w'_def t_def by simp
qed

subsection \<open>The run with an answer between two submissions\<close>

text \<open>
  C4. \<^verbatim>\<open>cancelAll\<close> clears the timeouts recorded in \<open>debounceTimers\<close>, rejects the pending
  requests with the reason, empties the maps and terminates the worker
  (\<open>cancelAll_tracked\<close>, \<open>cancelAll_rejects\<close>); no timeout is left when every pending one
  is recorded (\<open>cancelAll_no_timer_left\<close>). In the run above the timeout of the search
  \<open>a\<close> is pending but no longer recorded, so it survives \<^verbatim>\<open>cancelAll\<close>: it fires
  afterwards, registers handlers again and posts nothing, because there is no worker.
\<close>

theorem C4_pending_timer_survives_cancelAll:
  "debounceTimers search_answered = []
   \<and> map fst (timers search_answered) = [1]
   \<and> map fst (timers (cancelAll ''Superseded by a newer parse request'' search_answered)) = [1]
   \<and> messageHandlers
        (fire_timer 1 (cancelAll ''Superseded by a newer parse request'' search_answered))
       = [(''SEARCH_JSON-1'', 3)]
   \<and> worker (fire_timer 1 (cancelAll ''Superseded by a newer parse request'' search_answered))
       = None
   \<and> dispatched (fire_timer 1 (cancelAll ''Superseded by a newer parse request'' search_answered))
       = [JStr ''x'']"
  by code_simp

text \<open>
  C5. \<^verbatim>\<open>cancelAll\<close> rejects with the reason string itself, and \<^verbatim>\<open>isCancelledError\<close> looks
  for \<^verbatim>\<open>cancel\<close> in it. The diff checker cancels with
  \<^verbatim>\<open>'Superseded by a newer compare request'\<close>: the pending request is rejected with that
  string, and the string is not classified as a cancellation.
\<close>

theorem C5_superseded_reason_not_classified:
  "caught (map_of (promises (cancelAll ''Superseded by a newer compare request''
       (snd (postMessage ''COMPUTE_DIFF'' JNull None 0 None
               (new_manager :: (jsval, jsval) world))))) 0)
     = Some (ErrString ''Superseded by a newer compare request'')
   \<and> \<not> isCancelledError (ErrString ''Superseded by a newer compare request'')"
  by code_simp

text \<open>
  C6. A burst of debounced submissions that nothing interrupts collapses to one dispatch
  with the last payload (\<open>burst_state\<close>, \<open>burst_dispatches_last\<close>). In the run above the
  answer to an earlier search arrives between the submissions \<open>a\<close> and \<open>b\<close>; \<open>b\<close> is
  submitted while the timer of \<open>a\<close> is pending, that timer is not cleared, and both \<open>a\<close>
  and \<open>b\<close> are dispatched.
\<close>

theorem C6_two_dispatches_for_one_burst:
  "map fst (timers search_resubmitted) = [1]
   \<and> map fst (timers (submit ''SEARCH_JSON'' (JStr ''b'', None, 150, None) search_answered)) = [1, 2]
   \<and> dispatched search_answered = [JStr ''x'']
   \<and> dispatched (fire_timer 2 (fire_timer 1
        (submit ''SEARCH_JSON'' (JStr ''b'', None, 150, None) search_answered)))
       = [JStr ''x'', JStr ''a'', JStr ''b'']"
  by code_simp

end
